theory Spec2Isabelle
  imports Main "HOL-Library.Word"
begin

unbundle bit_operations_syntax

section \<open>Values of the JavaScript platform\<close>

text \<open>
  A \<open>Uint8Array\<close> or \<open>ArrayBuffer\<close> is a list of 8-bit words. A JavaScript string is a
  list of 16-bit code units: that is what \<open>String.fromCharCode\<close>, \<open>charCodeAt\<close> and
  \<open>length\<close> of \<open>encryption.ts\<close> see.
\<close>

type_synonym byte = "8 word"
type_synonym code_unit = "16 word"
type_synonym jsstring = "code_unit list"

text \<open>
  The exceptions that reach a caller of \<open>encryption.ts\<close>: \<open>atob\<close> and \<open>btoa\<close> throw a
  \<open>DOMException\<close> named \<open>InvalidCharacterError\<close>, \<open>crypto.subtle.decrypt\<close> rejects with
  one named \<open>OperationError\<close>, and \<open>EncryptionService\<close> throws
  \<open>Error('Encryption service not initialized')\<close>. The taxonomy of the specification
  names them \<open>MalformedEncoding\<close>, \<open>DecryptionFailed\<close> and \<open>NotInitialized\<close>.
\<close>

datatype error = InvalidCharacterError | OperationError | ServiceNotInitialized

abbreviation MalformedEncoding :: error where "MalformedEncoding \<equiv> InvalidCharacterError"
abbreviation DecryptionFailed :: error where "DecryptionFailed \<equiv> OperationError"
abbreviation NotInitialized :: error where "NotInitialized \<equiv> ServiceNotInitialized"

definition ascii :: "string \<Rightarrow> jsstring" where
  "ascii s = map (\<lambda>c. of_nat (of_char c)) s"

section \<open>\<open>btoa\<close> and \<open>atob\<close>\<close>

text \<open>
  The two platform functions are fixed by the HTML standard: \<open>btoa\<close> is the base64
  encoding of RFC 4648 section 4 (with padding) of a string of code units below 256,
  \<open>atob\<close> is the "forgiving-base64 decode" of the Infra standard. Six-bit digits are
  natural numbers below 64.
\<close>

definition b64_char :: "nat \<Rightarrow> code_unit" where
  "b64_char v = of_nat (if v < 26 then 65 + v
                        else if v < 52 then 71 + v
                        else if v < 62 then v - 4
                        else if v = 62 then 43 else 47)"

definition b64_value :: "code_unit \<Rightarrow> nat option" where
  "b64_value c = (let n = unat c in
     if 65 \<le> n \<and> n \<le> 90 then Some (n - 65)
     else if 97 \<le> n \<and> n \<le> 122 then Some (n - 71)
     else if 48 \<le> n \<and> n \<le> 57 then Some (n + 4)
     else if n = 43 then Some 62
     else if n = 47 then Some 63
     else None)"

definition b64_pad :: code_unit where
  "b64_pad = 61"

fun b64_encode :: "byte list \<Rightarrow> jsstring" where
  "b64_encode [] = []"
| "b64_encode [a] =
     [b64_char (unat a div 4), b64_char (unat a mod 4 * 16), b64_pad, b64_pad]"
| "b64_encode [a, b] =
     [b64_char (unat a div 4), b64_char (unat a mod 4 * 16 + unat b div 16),
      b64_char (unat b mod 16 * 4), b64_pad]"
| "b64_encode (a # b # c # rest) =
     [b64_char (unat a div 4), b64_char (unat a mod 4 * 16 + unat b div 16),
      b64_char (unat b mod 16 * 4 + unat c div 64), b64_char (unat c mod 64)]
     @ b64_encode rest"

text \<open>\<open>btoa\<close> throws on a code unit above U+00FF and encodes the low bytes otherwise.\<close>

definition btoa :: "jsstring \<Rightarrow> error + jsstring" where
  "btoa s = (if list_ex (\<lambda>c. 255 < c) s then Inl InvalidCharacterError
             else Inr (b64_encode (map ucast s)))"

definition is_ascii_whitespace :: "code_unit \<Rightarrow> bool" where
  "is_ascii_whitespace c = (c = 9 \<or> c = 10 \<or> c = 12 \<or> c = 13 \<or> c = 32)"

text \<open>
  Step 2 of forgiving-base64 decode: when the length is a multiple of four, one or two
  trailing \<open>=\<close> are removed.
\<close>

definition strip_padding :: "jsstring \<Rightarrow> jsstring" where
  "strip_padding d =
     (if length d mod 4 = 0 then
        (if 2 \<le> length d \<and> last d = b64_pad \<and> last (butlast d) = b64_pad
           then butlast (butlast d)
         else if d \<noteq> [] \<and> last d = b64_pad then butlast d
         else d)
      else d)"

text \<open>
  Steps 5 to 9: the digits are appended to a bit buffer (\<open>buf\<close>, holding \<open>n\<close> bits);
  every 24 bits give three bytes; 12 or 18 bits left at the end give one or two bytes,
  the last 4 or 2 bits being discarded.
\<close>

fun b64_loop :: "nat list \<Rightarrow> nat \<Rightarrow> nat \<Rightarrow> byte list" where
  "b64_loop [] buf n =
     (if n = 12 then [of_nat (buf div 16)]
      else if n = 18 then [of_nat (buf div 1024), of_nat (buf div 4)]
      else [])"
| "b64_loop (v # vs) buf n =
     (if n + 6 = 24
        then [of_nat ((buf * 64 + v) div 65536), of_nat ((buf * 64 + v) div 256),
              of_nat (buf * 64 + v)] @ b64_loop vs 0 0
      else b64_loop vs (buf * 64 + v) (n + 6))"

definition forgiving_base64_decode :: "jsstring \<Rightarrow> byte list option" where
  "forgiving_base64_decode text =
     (let data = strip_padding (filter (\<lambda>c. \<not> is_ascii_whitespace c) text) in
      if length data mod 4 = 1 then None
      else case those (map b64_value data) of
             None \<Rightarrow> None
           | Some vs \<Rightarrow> Some (b64_loop vs 0 0))"

definition atob :: "jsstring \<Rightarrow> error + jsstring" where
  "atob text = (case forgiving_base64_decode text of
                  None \<Rightarrow> Inl InvalidCharacterError
                | Some bytes \<Rightarrow> Inr (map ucast bytes))"

section \<open>Transport encoding of \<open>encryption.ts\<close>\<close>

text \<open>
  \<open>arrayBufferToBase64\<close> builds the binary string with \<open>String.fromCharCode\<close> byte by
  byte and hands it to \<open>btoa\<close>; \<open>base64ToArrayBuffer\<close> stores \<open>charCodeAt\<close> of every
  code unit of \<open>atob\<close>'s result in a \<open>Uint8Array\<close>, which keeps the low eight bits.
\<close>

definition arrayBufferToBase64 :: "byte list \<Rightarrow> error + jsstring" where
  "arrayBufferToBase64 buffer = btoa (map ucast buffer)"

definition base64ToArrayBuffer :: "jsstring \<Rightarrow> error + byte list" where
  "base64ToArrayBuffer base64 =
     (case atob base64 of
        Inl e \<Rightarrow> Inl e
      | Inr binary \<Rightarrow> Inr (map ucast binary))"

section \<open>\<open>TextEncoder\<close> and \<open>TextDecoder\<close>\<close>

text \<open>
  \<open>new TextEncoder().encode(s)\<close> first converts the string to a scalar value string
  (a surrogate code unit that is not part of a pair becomes U+FFFD), then encodes every
  code point in UTF-8. Code points are natural numbers.
\<close>

definition is_lead_surrogate :: "code_unit \<Rightarrow> bool" where
  "is_lead_surrogate c = (0xD800 \<le> unat c \<and> unat c \<le> 0xDBFF)"

definition is_trail_surrogate :: "code_unit \<Rightarrow> bool" where
  "is_trail_surrogate c = (0xDC00 \<le> unat c \<and> unat c \<le> 0xDFFF)"

fun to_code_points :: "jsstring \<Rightarrow> nat list" where
  "to_code_points [] = []"
| "to_code_points [c] =
     [if is_lead_surrogate c \<or> is_trail_surrogate c then 0xFFFD else unat c]"
| "to_code_points (c # d # rest) =
     (if is_lead_surrogate c \<and> is_trail_surrogate d
        then (0x10000 + (unat c - 0xD800) * 0x400 + (unat d - 0xDC00)) # to_code_points rest
      else if is_lead_surrogate c \<or> is_trail_surrogate c
        then 0xFFFD # to_code_points (d # rest)
      else unat c # to_code_points (d # rest))"

definition utf8_encode_code_point :: "nat \<Rightarrow> byte list" where
  "utf8_encode_code_point cp =
     (if cp < 0x80 then [of_nat cp]
      else if cp < 0x800 then [of_nat (0xC0 + cp div 64), of_nat (0x80 + cp mod 64)]
      else if cp < 0x10000 then
        [of_nat (0xE0 + cp div 4096), of_nat (0x80 + cp div 64 mod 64),
         of_nat (0x80 + cp mod 64)]
      else
        [of_nat (0xF0 + cp div 262144), of_nat (0x80 + cp div 4096 mod 64),
         of_nat (0x80 + cp div 64 mod 64), of_nat (0x80 + cp mod 64)])"

definition TextEncoder_encode :: "jsstring \<Rightarrow> byte list" where
  "TextEncoder_encode s = concat (map utf8_encode_code_point (to_code_points s))"

text \<open>
  \<open>new TextDecoder().decode(bytes)\<close> is the UTF-8 decoder of the Encoding standard with
  its defaults: errors are not fatal (each gives U+FFFD) and the byte order mark is not
  ignored, that is, a leading U+FEFF is removed from the output. The decoder keeps a
  code point, the bytes seen and needed, and the bounds of the next continuation byte.
\<close>

record utf8_decoder =
  code_point :: nat
  bytes_seen :: nat
  bytes_needed :: nat
  lower_boundary :: nat
  upper_boundary :: nat

definition utf8_initial :: utf8_decoder where
  "utf8_initial = \<lparr>code_point = 0, bytes_seen = 0, bytes_needed = 0,
                    lower_boundary = 0x80, upper_boundary = 0xBF\<rparr>"

text \<open>The handler's branch for \<open>bytes needed = 0\<close>: output and next state.\<close>

definition utf8_lead :: "utf8_decoder \<Rightarrow> nat \<Rightarrow> nat list \<times> utf8_decoder" where
  "utf8_lead st b =
     (if b \<le> 0x7F then ([b], st)
      else if 0xC2 \<le> b \<and> b \<le> 0xDF
        then ([], st\<lparr>bytes_needed := 1, code_point := b mod 32\<rparr>)
      else if 0xE0 \<le> b \<and> b \<le> 0xEF
        then ([], st\<lparr>lower_boundary := (if b = 0xE0 then 0xA0 else lower_boundary st),
                       upper_boundary := (if b = 0xED then 0x9F else upper_boundary st),
                       bytes_needed := 2, code_point := b mod 16\<rparr>)
      else if 0xF0 \<le> b \<and> b \<le> 0xF4
        then ([], st\<lparr>lower_boundary := (if b = 0xF0 then 0x90 else lower_boundary st),
                       upper_boundary := (if b = 0xF4 then 0x8F else upper_boundary st),
                       bytes_needed := 3, code_point := b mod 8\<rparr>)
      else ([0xFFFD], st))"

definition utf8_reset :: "utf8_decoder \<Rightarrow> utf8_decoder" where
  "utf8_reset st = st\<lparr>code_point := 0, bytes_needed := 0, bytes_seen := 0\<rparr>"

text \<open>
  A byte outside the bounds ends the sequence with U+FFFD and is handled again from the
  reset state; at the end of the input an unfinished sequence gives U+FFFD.
\<close>

fun utf8_run :: "utf8_decoder \<Rightarrow> byte list \<Rightarrow> nat list" where
  "utf8_run st [] = (if bytes_needed st \<noteq> 0 then [0xFFFD] else [])"
| "utf8_run st (x # xs) =
     (if bytes_needed st = 0
        then fst (utf8_lead st (unat x)) @ utf8_run (snd (utf8_lead st (unat x))) xs
      else if unat x < lower_boundary st \<or> upper_boundary st < unat x
        then 0xFFFD #
             fst (utf8_lead (utf8_reset st\<lparr>lower_boundary := 0x80, upper_boundary := 0xBF\<rparr>)
                    (unat x)) @
             utf8_run
               (snd (utf8_lead (utf8_reset st\<lparr>lower_boundary := 0x80, upper_boundary := 0xBF\<rparr>)
                      (unat x))) xs
      else if Suc (bytes_seen st) \<noteq> bytes_needed st
        then utf8_run (st\<lparr>lower_boundary := 0x80, upper_boundary := 0xBF,
                          code_point := code_point st * 64 + unat x mod 64,
                          bytes_seen := Suc (bytes_seen st)\<rparr>) xs
      else (code_point st * 64 + unat x mod 64) #
           utf8_run (utf8_reset st\<lparr>lower_boundary := 0x80, upper_boundary := 0xBF\<rparr>) xs)"

definition strip_bom :: "nat list \<Rightarrow> nat list" where
  "strip_bom cps = (case cps of [] \<Rightarrow> [] | c # rest \<Rightarrow> if c = 0xFEFF then rest else cps)"

fun from_code_points :: "nat list \<Rightarrow> jsstring" where
  "from_code_points [] = []"
| "from_code_points (cp # rest) =
     (if cp < 0x10000 then [of_nat cp]
      else [of_nat (0xD800 + (cp - 0x10000) div 0x400),
            of_nat (0xDC00 + (cp - 0x10000) mod 0x400)]) @ from_code_points rest"

definition TextDecoder_decode :: "byte list \<Rightarrow> jsstring" where
  "TextDecoder_decode bytes = from_code_points (strip_bom (utf8_run utf8_initial bytes))"

section \<open>Web Crypto\<close>

text \<open>
  A \<open>CryptoKey\<close> made by \<open>deriveKey\<close> for \<open>{name: 'AES-GCM', length: 256}\<close> is an
  opaque handle on the derived bits. The primitives themselves are not code of this
  repository and stay parameters: AES-GCM sealing (the result is ciphertext followed by
  the tag), AES-GCM opening (\<open>None\<close> when authentication fails) and PBKDF2 with
  HMAC-SHA-256 (password, salt, iterations, number of bits).
\<close>

datatype CryptoKey = AesGcmKey "byte list"

record platform =
  aes_gcm_seal :: "CryptoKey \<Rightarrow> byte list \<Rightarrow> byte list \<Rightarrow> byte list"
  aes_gcm_open :: "CryptoKey \<Rightarrow> byte list \<Rightarrow> byte list \<Rightarrow> byte list option"
  pbkdf2_hmac_sha256 :: "byte list \<Rightarrow> byte list \<Rightarrow> nat \<Rightarrow> nat \<Rightarrow> byte list"

text \<open>
  \<open>crypto.subtle.encrypt\<close> with \<open>{name: 'AES-GCM', iv}\<close> uses the default tag of 128
  bits. Its only failure is a plaintext longer than \<open>2^39 - 256\<close> bytes, beyond any
  buffer a JavaScript engine allocates, so it has no error branch here.
  \<open>crypto.subtle.decrypt\<close> rejects with \<open>OperationError\<close> when the data is shorter
  than the tag or when authentication fails.
\<close>

definition TAG_LENGTH :: nat where
  "TAG_LENGTH = 16"

definition subtle_encrypt :: "platform \<Rightarrow> CryptoKey \<Rightarrow> byte list \<Rightarrow> byte list \<Rightarrow> byte list" where
  "subtle_encrypt P k iv data = aes_gcm_seal P k iv data"

definition subtle_decrypt ::
    "platform \<Rightarrow> CryptoKey \<Rightarrow> byte list \<Rightarrow> byte list \<Rightarrow> error + byte list" where
  "subtle_decrypt P k iv data =
     (if length data < TAG_LENGTH then Inl OperationError
      else case aes_gcm_open P k iv data of
             None \<Rightarrow> Inl OperationError
           | Some plain \<Rightarrow> Inr plain)"

text \<open>
  \<open>crypto.getRandomValues\<close> fills an array from the system's generator. The generator is
  a tape of bytes still to come; a call takes the first \<open>n\<close> and leaves the rest.
\<close>

type_synonym entropy = "nat \<Rightarrow> byte"

definition getRandomValues :: "nat \<Rightarrow> entropy \<Rightarrow> byte list \<times> entropy" where
  "getRandomValues n rng = (map rng [0..<n], \<lambda>i. rng (n + i))"

section \<open>\<open>encryption.ts\<close>\<close>

definition SALT_LENGTH :: nat where
  "SALT_LENGTH = 16"

definition IV_LENGTH :: nat where
  "IV_LENGTH = 12"

definition PBKDF2_ITERATIONS :: nat where
  "PBKDF2_ITERATIONS = 600000"

definition KEY_LENGTH :: nat where
  "KEY_LENGTH = 256"

definition generateSalt :: "entropy \<Rightarrow> (error + jsstring) \<times> entropy" where
  "generateSalt rng =
     (case getRandomValues SALT_LENGTH rng of
        (salt_bytes, rng') \<Rightarrow> (arrayBufferToBase64 salt_bytes, rng'))"

definition deriveKeyFromPassword :: "platform \<Rightarrow> jsstring \<Rightarrow> jsstring \<Rightarrow> error + CryptoKey" where
  "deriveKeyFromPassword P password salt_text =
     (case base64ToArrayBuffer salt_text of
        Inl e \<Rightarrow> Inl e
      | Inr saltBuffer \<Rightarrow>
          Inr (AesGcmKey (pbkdf2_hmac_sha256 P (TextEncoder_encode password) saltBuffer
                            PBKDF2_ITERATIONS KEY_LENGTH)))"

text \<open>
  \<open>combined\<close> is a new array of \<open>iv.length + ciphertext.byteLength\<close> bytes, the nonce
  set at 0 and the ciphertext at \<open>iv.length\<close>: the concatenation.
\<close>

definition encryptBinary ::
    "platform \<Rightarrow> byte list \<Rightarrow> CryptoKey \<Rightarrow> entropy \<Rightarrow> (error + jsstring) \<times> entropy" where
  "encryptBinary P data k rng =
     (case getRandomValues IV_LENGTH rng of
        (iv, rng') \<Rightarrow>
          (arrayBufferToBase64 (iv @ subtle_encrypt P k iv data), rng'))"

definition encryptString ::
    "platform \<Rightarrow> jsstring \<Rightarrow> CryptoKey \<Rightarrow> entropy \<Rightarrow> (error + jsstring) \<times> entropy" where
  "encryptString P plaintext k rng =
     (case getRandomValues IV_LENGTH rng of
        (iv, rng') \<Rightarrow>
          (arrayBufferToBase64 (iv @ subtle_encrypt P k iv (TextEncoder_encode plaintext)),
           rng'))"

text \<open>\<open>slice(0, IV_LENGTH)\<close> and \<open>slice(IV_LENGTH)\<close> of a shorter array give what is there.\<close>

definition decryptBinary :: "platform \<Rightarrow> jsstring \<Rightarrow> CryptoKey \<Rightarrow> error + byte list" where
  "decryptBinary P ciphertext k =
     (case base64ToArrayBuffer ciphertext of
        Inl e \<Rightarrow> Inl e
      | Inr combined \<Rightarrow>
          subtle_decrypt P k (take IV_LENGTH combined) (drop IV_LENGTH combined))"

definition decryptString :: "platform \<Rightarrow> jsstring \<Rightarrow> CryptoKey \<Rightarrow> error + jsstring" where
  "decryptString P ciphertext k =
     (case base64ToArrayBuffer ciphertext of
        Inl e \<Rightarrow> Inl e
      | Inr combined \<Rightarrow>
          (case subtle_decrypt P k (take IV_LENGTH combined) (drop IV_LENGTH combined) of
             Inl e \<Rightarrow> Inl e
           | Inr decrypted \<Rightarrow> Inr (TextDecoder_decode decrypted)))"

subsection \<open>\<open>EncryptionService\<close>\<close>

text \<open>
  The two private fields, \<open>null\<close> being \<open>None\<close>. A method takes the object and returns
  it updated when it assigns a field; the encrypting methods also take the generator.
\<close>

record EncryptionService =
  key :: "CryptoKey option"
  salt :: "jsstring option"

record note_fields =
  title :: jsstring
  content :: jsstring

definition new_EncryptionService :: EncryptionService where
  "new_EncryptionService = \<lparr>key = None, salt = None\<rparr>"

text \<open>\<open>this.salt\<close> is assigned before the derivation is awaited, \<open>this.key\<close> after it.\<close>

definition initialize ::
    "platform \<Rightarrow> jsstring \<Rightarrow> jsstring \<Rightarrow> EncryptionService \<Rightarrow> (error + unit) \<times> EncryptionService" where
  "initialize P password salt_text this =
     (case deriveKeyFromPassword P password salt_text of
        Inl e \<Rightarrow> (Inl e, this\<lparr>salt := Some salt_text\<rparr>)
      | Inr k \<Rightarrow> (Inr (), this\<lparr>salt := Some salt_text, key := Some k\<rparr>))"

definition isInitialized :: "EncryptionService \<Rightarrow> bool" where
  "isInitialized this = (key this \<noteq> None)"

definition clear :: "EncryptionService \<Rightarrow> EncryptionService" where
  "clear this = this\<lparr>key := None, salt := None\<rparr>"

definition encryptNote ::
    "platform \<Rightarrow> jsstring \<Rightarrow> jsstring \<Rightarrow> EncryptionService \<Rightarrow> entropy \<Rightarrow>
       (error + note_fields) \<times> entropy" where
  "encryptNote P title_text content_text this rng =
     (case key this of
        None \<Rightarrow> (Inl ServiceNotInitialized, rng)
      | Some k \<Rightarrow>
          (case encryptString P title_text k rng of
             (Inl e, rng1) \<Rightarrow> (Inl e, rng1)
           | (Inr t, rng1) \<Rightarrow>
               (case encryptString P content_text k rng1 of
                  (Inl e, rng2) \<Rightarrow> (Inl e, rng2)
                | (Inr c, rng2) \<Rightarrow> (Inr \<lparr>title = t, content = c\<rparr>, rng2))))"

text \<open>\<open>content ? ... : ''\<close>: a string is falsy exactly when it is empty.\<close>

definition decryptNote ::
    "platform \<Rightarrow> jsstring \<Rightarrow> jsstring \<Rightarrow> EncryptionService \<Rightarrow> error + note_fields" where
  "decryptNote P title_text content_text this =
     (case key this of
        None \<Rightarrow> Inl ServiceNotInitialized
      | Some k \<Rightarrow>
          (case decryptString P title_text k of
             Inl e \<Rightarrow> Inl e
           | Inr t \<Rightarrow>
               (if content_text \<noteq> []
                  then (case decryptString P content_text k of
                          Inl e \<Rightarrow> Inl e
                        | Inr c \<Rightarrow> Inr \<lparr>title = t, content = c\<rparr>)
                else Inr \<lparr>title = t, content = []\<rparr>)))"

definition encryptImage ::
    "platform \<Rightarrow> byte list \<Rightarrow> EncryptionService \<Rightarrow> entropy \<Rightarrow> (error + jsstring) \<times> entropy" where
  "encryptImage P imageData this rng =
     (case key this of
        None \<Rightarrow> (Inl ServiceNotInitialized, rng)
      | Some k \<Rightarrow> encryptBinary P imageData k rng)"

definition decryptImage :: "platform \<Rightarrow> jsstring \<Rightarrow> EncryptionService \<Rightarrow> error + byte list" where
  "decryptImage P encryptedData this =
     (case key this of
        None \<Rightarrow> Inl ServiceNotInitialized
      | Some k \<Rightarrow> decryptBinary P encryptedData k)"

definition encryptLabel ::
    "platform \<Rightarrow> jsstring \<Rightarrow> EncryptionService \<Rightarrow> entropy \<Rightarrow> (error + jsstring) \<times> entropy" where
  "encryptLabel P name this rng =
     (case key this of
        None \<Rightarrow> (Inl ServiceNotInitialized, rng)
      | Some k \<Rightarrow> encryptString P name k rng)"

definition decryptLabel :: "platform \<Rightarrow> jsstring \<Rightarrow> EncryptionService \<Rightarrow> error + jsstring" where
  "decryptLabel P name this =
     (case key this of
        None \<Rightarrow> Inl ServiceNotInitialized
      | Some k \<Rightarrow> decryptString P name k)"

section \<open>Auxiliary definitions\<close>

text \<open>The digits of the base64 encoding of a byte array, before padding.\<close>

fun b64_digits :: "byte list \<Rightarrow> nat list" where
  "b64_digits [] = []"
| "b64_digits [a] = [unat a div 4, unat a mod 4 * 16]"
| "b64_digits [a, b] =
     [unat a div 4, unat a mod 4 * 16 + unat b div 16, unat b mod 16 * 4]"
| "b64_digits (a # b # c # rest) =
     [unat a div 4, unat a mod 4 * 16 + unat b div 16,
      unat b mod 16 * 4 + unat c div 64, unat c mod 64] @ b64_digits rest"

text \<open>
  What the round trip asks of the primitives at one key, nonce and plaintext: opening
  what was sealed gives the plaintext back, and the sealed data holds a whole tag.
\<close>

definition opens_own_seal :: "platform \<Rightarrow> CryptoKey \<Rightarrow> byte list \<Rightarrow> byte list \<Rightarrow> bool" where
  "opens_own_seal P k iv data =
     (aes_gcm_open P k iv (aes_gcm_seal P k iv data) = Some data \<and>
      TAG_LENGTH \<le> length (aes_gcm_seal P k iv data))"

text \<open>A string is well formed when every surrogate code unit is part of a pair.\<close>

fun well_formed :: "jsstring \<Rightarrow> bool" where
  "well_formed [] = True"
| "well_formed [c] = (\<not> is_lead_surrogate c \<and> \<not> is_trail_surrogate c)"
| "well_formed (c # d # rest) =
     (if is_lead_surrogate c then is_trail_surrogate d \<and> well_formed rest
      else \<not> is_trail_surrogate c \<and> well_formed (d # rest))"

definition starts_with_bom :: "jsstring \<Rightarrow> bool" where
  "starts_with_bom s = (case s of [] \<Rightarrow> False | c # rest \<Rightarrow> c = 0xFEFF)"

text \<open>A scalar value is a code point that is not a surrogate.\<close>

definition is_scalar :: "nat \<Rightarrow> bool" where
  "is_scalar cp = (cp < 0x110000 \<and> (cp < 0xD800 \<or> 0xDFFF < cp))"

text \<open>
  \<open>decryptString(encryptString(p, k), k)\<close> and its binary counterpart, the encrypting
  call drawing its nonce from the generator.
\<close>

definition encrypt_then_decrypt_string ::
    "platform \<Rightarrow> jsstring \<Rightarrow> CryptoKey \<Rightarrow> entropy \<Rightarrow> error + jsstring" where
  "encrypt_then_decrypt_string P p k rng =
     (case fst (encryptString P p k rng) of
        Inl e \<Rightarrow> Inl e
      | Inr blob \<Rightarrow> decryptString P blob k)"

definition encrypt_then_decrypt_binary ::
    "platform \<Rightarrow> byte list \<Rightarrow> CryptoKey \<Rightarrow> entropy \<Rightarrow> error + byte list" where
  "encrypt_then_decrypt_binary P b k rng =
     (case fst (encryptBinary P b k rng) of
        Inl e \<Rightarrow> Inl e
      | Inr blob \<Rightarrow> decryptBinary P blob k)"

text \<open>
  The bytes a blob of \<open>encryptString\<close> decodes to, and the change of one bit of one
  element of an array (of bytes, or of the code units of a text). A key under which
  the primitive detects tampering: whatever was sealed under a 12-byte nonce, no
  single changed bit of nonce, ciphertext or tag is accepted by opening.
\<close>

definition blob_bytes :: "platform \<Rightarrow> jsstring \<Rightarrow> CryptoKey \<Rightarrow> entropy \<Rightarrow> byte list" where
  "blob_bytes P p k rng =
     fst (getRandomValues IV_LENGTH rng) @
     aes_gcm_seal P k (fst (getRandomValues IV_LENGTH rng)) (TextEncoder_encode p)"

definition flip_bit_at :: "nat \<Rightarrow> nat \<Rightarrow> 'a::len word list \<Rightarrow> 'a word list" where
  "flip_bit_at i j xs = xs[i := flip_bit j (xs ! i)]"

definition rejects_bit_flips :: "platform \<Rightarrow> CryptoKey \<Rightarrow> bool" where
  "rejects_bit_flips P k =
     (\<forall>iv data i j.
        length iv = IV_LENGTH \<longrightarrow> i < length (iv @ aes_gcm_seal P k iv data) \<longrightarrow> j < 8 \<longrightarrow>
        aes_gcm_open P k
          (take IV_LENGTH (flip_bit_at i j (iv @ aes_gcm_seal P k iv data)))
          (drop IV_LENGTH (flip_bit_at i j (iv @ aes_gcm_seal P k iv data))) = None)"


text \<open>
  For the texts \<open>atob\<close> rejects: the characters of the base64 alphabet, what is left of
  a text once white space and padding are removed, and the two reasons for rejection.
  A text is canonical when it is the encoding of the bytes it decodes to.
\<close>

definition is_base64_char :: "code_unit \<Rightarrow> bool" where
  "is_base64_char c =
     ((0x41 \<le> unat c \<and> unat c \<le> 0x5A) \<or> (0x61 \<le> unat c \<and> unat c \<le> 0x7A) \<or>
      (0x30 \<le> unat c \<and> unat c \<le> 0x39) \<or> unat c = 0x2B \<or> unat c = 0x2F)"

definition base64_data :: "jsstring \<Rightarrow> jsstring" where
  "base64_data t = strip_padding (filter (\<lambda>c. \<not> is_ascii_whitespace c) t)"

definition rejected_text :: "jsstring \<Rightarrow> bool" where
  "rejected_text t =
     (length (base64_data t) mod 4 = 1 \<or> list_ex (\<lambda>c. \<not> is_base64_char c) (base64_data t))"

definition is_canonical_base64 :: "jsstring \<Rightarrow> bool" where
  "is_canonical_base64 t =
     (case forgiving_base64_decode t of None \<Rightarrow> False | Some b \<Rightarrow> b64_encode b = t)"

subsection \<open>A small instance of the primitives\<close>

text \<open>
  To run the model on concrete inputs the parameters need values. This instance is not
  AES-GCM or PBKDF2: the cipher is an exclusive-or with a stream made from key and nonce,
  followed by a 16-byte tag made from key, nonce and ciphertext. It has the interface
  the code relies on: opening a sealed message gives the plaintext, and opening fails
  when a bit of nonce, ciphertext or tag was changed. Its tag is weak otherwise: some
  longer changes of a sealed message are opened.
\<close>

fun key_bytes :: "CryptoKey \<Rightarrow> byte list" where
  "key_bytes (AesGcmKey kb) = kb"

fun xor_sum :: "byte list \<Rightarrow> byte" where
  "xor_sum [] = 0"
| "xor_sum (b # bs) = b XOR xor_sum bs"

definition toy_stream :: "CryptoKey \<Rightarrow> byte list \<Rightarrow> nat \<Rightarrow> byte list" where
  "toy_stream k iv n = map (\<lambda>i. xor_sum (key_bytes k) + xor_sum iv + of_nat i) [0..<n]"

definition toy_tag :: "CryptoKey \<Rightarrow> byte list \<Rightarrow> byte list \<Rightarrow> byte list" where
  "toy_tag k iv c = replicate TAG_LENGTH (xor_sum (key_bytes k @ iv @ c))"

definition toy_seal :: "CryptoKey \<Rightarrow> byte list \<Rightarrow> byte list \<Rightarrow> byte list" where
  "toy_seal k iv p =
     map2 (XOR) p (toy_stream k iv (length p)) @
     toy_tag k iv (map2 (XOR) p (toy_stream k iv (length p)))"

definition toy_open :: "CryptoKey \<Rightarrow> byte list \<Rightarrow> byte list \<Rightarrow> byte list option" where
  "toy_open k iv d =
     (if TAG_LENGTH \<le> length d \<and>
         drop (length d - TAG_LENGTH) d = toy_tag k iv (take (length d - TAG_LENGTH) d)
        then Some (map2 (XOR) (take (length d - TAG_LENGTH) d)
                     (toy_stream k iv (length d - TAG_LENGTH)))
      else None)"

definition toy_pbkdf2 :: "byte list \<Rightarrow> byte list \<Rightarrow> nat \<Rightarrow> nat \<Rightarrow> byte list" where
  "toy_pbkdf2 pw s iterations bits =
     map (\<lambda>i. xor_sum pw + xor_sum s + of_nat iterations + of_nat i) [0..<bits div 8]"

definition toy_platform :: platform where
  "toy_platform = \<lparr>aes_gcm_seal = toy_seal, aes_gcm_open = toy_open,
                     pbkdf2_hmac_sha256 = toy_pbkdf2\<rparr>"

text \<open>
  Two generators: one whose bytes all differ over the first draws, and one that gives
  the same twelve bytes again and again.
\<close>

definition counting :: entropy where
  "counting i = of_nat (7 * i + 1)"

definition repeating :: entropy where
  "repeating i = of_nat (17 * (i mod 12) + 3)"

section \<open>Base64: arithmetic of the digits\<close>

lemma div_mod_4: "(a::nat) div 4 * 4 + a mod 4 = a"
  by simp

lemma div_mod_16: "(a::nat) div 16 * 16 + a mod 16 = a"
  by simp

lemma div_mod_64: "(a::nat) div 64 * 64 + a mod 64 = a"
  by simp

lemma regroup_2: "a1 * 64 + a0 * 16 = (a1 * 4 + a0) * (16::nat)"
  by simp

lemma regroup_3: "((a1 * 64 + (a0 * 16 + b1)) * 64 + b0 * 4) = ((a1 * 4 + a0) * 256 + (b1 * 16 + b0)) * (4::nat)"
  by simp

lemma regroup_4: "((a1 * 64 + (a0 * 16 + b1)) * 64 + (b0 * 4 + c1)) * 64 + c0
   = (a1 * 4 + a0) * 65536 + (b1 * 16 + b0) * 256 + (c1 * 64 + (c0::nat))"
  by simp

lemma digits_of_1: "((a::nat) div 4 * 64 + a mod 4 * 16) = a * 16"
  using regroup_2 [of "a div 4" "a mod 4"] by (simp only: div_mod_4)

lemma digits_of_2: "(((a::nat) div 4 * 64 + (a mod 4 * 16 + b div 16)) * 64 + b mod 16 * 4) = (a * 256 + b) * 4"
  using regroup_3 [of "a div 4" "a mod 4" "b div 16" "b mod 16"] by (simp only: div_mod_4 div_mod_16)

lemma digits_of_3: "(((a::nat) div 4 * 64 + (a mod 4 * 16 + b div 16)) * 64 +
            (b mod 16 * 4 + c div 64)) * 64 + c mod 64 = a * 65536 + b * 256 + c"
  using regroup_4 [of "a div 4" "a mod 4" "b div 16" "b mod 16" "c div 64" "c mod 64"]
  by (simp only: div_mod_4 div_mod_16 div_mod_64)

lemma high_byte: "b < 256 \<Longrightarrow> c < 256 \<Longrightarrow> ((a::nat) * 65536 + b * 256 + c) div 65536 = a"
  by simp

lemma middle_byte: "b < 256 \<Longrightarrow> c < 256 \<Longrightarrow> (((a::nat) * 65536 + b * 256 + c) div 256) mod 256 = b"
proof -
  assume b: "b < 256" and c: "c < 256"
  have "a * 65536 + b * 256 + c = (a * 256 + b) * 256 + c" by simp
  then have "(a * 65536 + b * 256 + c) div 256 = a * 256 + b" using c by simp
  then show ?thesis using b by simp
qed

lemma low_byte: "c < 256 \<Longrightarrow> ((a::nat) * 65536 + b * 256 + c) mod 256 = c"
proof -
  assume c: "c < 256"
  have "a * 65536 + b * 256 + c = c + 256 * (a * 256 + b)" by simp
  then have "(a * 65536 + b * 256 + c) mod 256 = c mod 256" by (simp only: mod_mult_self2)
  then show ?thesis using c by simp
qed

lemma second_of_2: "b < 256 \<Longrightarrow> (((a::nat) * 256 + b) * 4 div 4) mod 256 = b"
  by simp

lemma first_of_2: "b < 256 \<Longrightarrow> (((a::nat) * 256 + b) * 4 div 1024) = a"
  by simp

lemma unat_b64_char:
  "v < 64 \<Longrightarrow> unat (b64_char v) =
     (if v < 26 then 65 + v else if v < 52 then 71 + v else if v < 62 then v - 4
      else if v = 62 then 43 else 47)"
  by (simp add: b64_char_def unat_of_nat)

lemma b64_value_char: "v < 64 \<Longrightarrow> b64_value (b64_char v) = Some v"
  by (simp add: b64_value_def unat_b64_char Let_def) arith

lemma b64_char_not_space: "v < 64 \<Longrightarrow> \<not> is_ascii_whitespace (b64_char v)"
proof -
  assume v: "v < 64"
  have "unat (b64_char v) \<ge> 43" using v by (simp add: unat_b64_char) arith
  moreover have "is_ascii_whitespace c \<Longrightarrow> unat c \<le> 32" for c
    by (auto simp: is_ascii_whitespace_def)
  ultimately show ?thesis by fastforce
qed

lemma b64_char_not_pad: "v < 64 \<Longrightarrow> b64_char v \<noteq> b64_pad"
proof
  assume v: "v < 64" and "b64_char v = b64_pad"
  then have "unat (b64_char v) = 61" by (simp add: b64_pad_def)
  with v show False by (simp add: unat_b64_char split: if_splits)
qed

lemma byte_of_nat_eq: "((of_nat n :: byte) = w) = (n mod 256 = unat w)"
proof
  assume "(of_nat n :: byte) = w"
  then have "unat (of_nat n :: byte) = unat w" by simp
  then show "n mod 256 = unat w" by (simp add: unat_of_nat)
next
  assume "n mod 256 = unat w"
  then have "unat (of_nat n :: byte) = unat w" by (simp add: unat_of_nat)
  then show "(of_nat n :: byte) = w" by (simp only: word_unat_eq_iff)
qed

lemma unat_byte_lt: "unat (b :: byte) < 256"
  using unsigned_less [of b, where 'a=nat] by simp

lemma digit_bounds:
  "a < 256 \<Longrightarrow> (a::nat) div 4 < 64"
  "(a::nat) mod 4 * 16 < 64"
  "b < 256 \<Longrightarrow> (a::nat) mod 4 * 16 + b div 16 < 64"
  "(b::nat) mod 16 * 4 < 64"
  "c < 256 \<Longrightarrow> (b::nat) mod 16 * 4 + c div 64 < 64"
  "(c::nat) mod 64 < 64"
proof -
  have a0: "a mod 4 < 4" and b0: "b mod 16 < 16" by simp_all
  show "a < 256 \<Longrightarrow> a div 4 < 64" by simp
  show "a mod 4 * 16 < 64" using a0 by linarith
  show "b < 256 \<Longrightarrow> a mod 4 * 16 + b div 16 < 64"
  proof -
    assume "b < 256" then have "b div 16 < 16" by simp
    then show ?thesis using a0 by linarith
  qed
  show "b mod 16 * 4 < 64" using b0 by linarith
  show "c < 256 \<Longrightarrow> b mod 16 * 4 + c div 64 < 64"
  proof -
    assume "c < 256" then have "c div 64 < 4" by simp
    then show ?thesis using b0 by linarith
  qed
  show "c mod 64 < 64" by simp
qed

lemma b64_digits_lt: "list_all (\<lambda>v. v < 64) (b64_digits bs)"
  by (induction bs rule: b64_digits.induct) (simp_all add: digit_bounds unat_byte_lt)

lemma replicate_2: "replicate 2 x = [x, x]"
  by (simp add: numeral_2_eq_2)

lemma b64_encode_digits:
  "b64_encode bs =
     map b64_char (b64_digits bs) @ replicate ((3 - length bs mod 3) mod 3) b64_pad"
proof (induction bs rule: b64_digits.induct)
  case (4 a b c rest)
  then show ?case by simp
qed (simp_all add: replicate_2)

lemma length_b64_encode: "length (b64_encode bs) mod 4 = 0"
  by (induction bs rule: b64_encode.induct) simp_all

lemma length_b64_digits: "length (b64_digits bs) mod 4 \<noteq> 1"
  by (induction bs rule: b64_digits.induct) simp_all

lemma b64_loop2: "b64_loop [d1, d2] 0 0 = [of_nat ((d1 * 64 + d2) div 16)]"
  by simp

lemma b64_loop3:
  "b64_loop [d1, d2, d3] 0 0 =
     [of_nat (((d1 * 64 + d2) * 64 + d3) div 1024), of_nat (((d1 * 64 + d2) * 64 + d3) div 4)]"
  by simp

lemma b64_loop4:
  "b64_loop (d1 # d2 # d3 # d4 # ds) 0 0 =
     [of_nat ((((d1 * 64 + d2) * 64 + d3) * 64 + d4) div 65536),
      of_nat ((((d1 * 64 + d2) * 64 + d3) * 64 + d4) div 256),
      of_nat (((d1 * 64 + d2) * 64 + d3) * 64 + d4)] @ b64_loop ds 0 0"
  by simp

lemma byte_16: "(of_nat (unat a * 16 div 16) :: byte) = a"
  by (simp add: byte_of_nat_eq unat_byte_lt)

lemma byte_1024: "(of_nat ((unat a * 256 + unat (b::byte)) * 4 div 1024) :: byte) = a"
  by (simp only: byte_of_nat_eq first_of_2 [OF unat_byte_lt]) (simp add: unat_byte_lt)

lemma byte_4: "(of_nat ((unat (a::byte) * 256 + unat b) * 4 div 4) :: byte) = b"
  by (simp only: byte_of_nat_eq second_of_2 [OF unat_byte_lt])

lemma byte_hi:
  "(of_nat ((unat a * 65536 + unat (b::byte) * 256 + unat (c::byte)) div 65536) :: byte) = a"
  by (simp only: byte_of_nat_eq high_byte [OF unat_byte_lt unat_byte_lt]) (simp add: unat_byte_lt)

lemma byte_mid:
  "(of_nat ((unat (a::byte) * 65536 + unat b * 256 + unat (c::byte)) div 256) :: byte) = b"
  by (simp only: byte_of_nat_eq middle_byte [OF unat_byte_lt unat_byte_lt])

lemma byte_lo:
  "(of_nat (unat (a::byte) * 65536 + unat (b::byte) * 256 + unat c) :: byte) = c"
  by (simp only: byte_of_nat_eq low_byte [OF unat_byte_lt])

lemma b64_loop_digits: "b64_loop (b64_digits bs) 0 0 = bs"
proof (induction bs rule: b64_digits.induct)
  case 1 show ?case by simp
next
  case (2 a)
  show ?case by (simp only: b64_digits.simps b64_loop2 digits_of_1 byte_16)
next
  case (3 a b)
  show ?case by (simp only: b64_digits.simps b64_loop3 digits_of_2 byte_1024 byte_4)
next
  case (4 a b c rest)
  show ?case
    by (simp only: b64_digits.simps b64_loop4 digits_of_3 append_Cons append_Nil
          byte_hi byte_mid byte_lo 4)
qed

section \<open>Base64: decoding an encoding\<close>

lemma those_b64_value:
  "list_all (\<lambda>v. v < 64) ds \<Longrightarrow> those (map b64_value (map b64_char ds)) = Some ds"
  by (induction ds) (simp_all add: b64_value_char)

lemma pad_not_space: "\<not> is_ascii_whitespace b64_pad"
  by (simp add: is_ascii_whitespace_def b64_pad_def)

lemma filter_b64_chars:
  "list_all (\<lambda>v. v < 64) ds \<Longrightarrow>
     filter (\<lambda>c. \<not> is_ascii_whitespace c) (map b64_char ds @ replicate k b64_pad) =
     map b64_char ds @ replicate k b64_pad"
  by (induction ds) (simp_all add: b64_char_not_space pad_not_space)

lemma last_b64_char:
  "list_all (\<lambda>v. v < 64) ds \<Longrightarrow> ds \<noteq> [] \<Longrightarrow> last (map b64_char ds) \<noteq> b64_pad"
proof -
  assume a: "list_all (\<lambda>v. v < 64) ds" and ne: "ds \<noteq> []"
  then have "last ds < 64" by (simp add: list_all_iff)
  then show ?thesis using ne by (simp add: last_map b64_char_not_pad)
qed

lemma strip_padding_0:
  "list_all (\<lambda>v. v < 64) ds \<Longrightarrow> strip_padding (map b64_char ds) = map b64_char ds"
proof (cases "ds = []")
  case True then show ?thesis by (simp add: strip_padding_def)
next
  case False
  assume "list_all (\<lambda>v. v < 64) ds"
  from last_b64_char [OF this False] show ?thesis by (simp add: strip_padding_def)
qed

lemma strip_padding_1:
  assumes "list_all (\<lambda>v. v < 64) ds" and "ds \<noteq> []" and "Suc (length ds) mod 4 = 0"
  shows "strip_padding (map b64_char ds @ [b64_pad]) = map b64_char ds"
  using last_b64_char [OF assms(1,2)] assms(2,3)
  by (simp add: strip_padding_def butlast_append)

lemma strip_padding_2:
  assumes "Suc (Suc (length ds)) mod 4 = 0"
  shows "strip_padding (map b64_char ds @ [b64_pad, b64_pad]) = map b64_char ds"
  using assms by (simp add: strip_padding_def butlast_append)

lemma strip_padding_encode:
  "strip_padding (b64_encode bs) = map b64_char (b64_digits bs)"
proof -
  let ?k = "(3 - length bs mod 3) mod 3"
  have enc: "b64_encode bs = map b64_char (b64_digits bs) @ replicate ?k b64_pad"
    by (rule b64_encode_digits)
  have len: "(length (b64_digits bs) + ?k) mod 4 = 0"
    using length_b64_encode [of bs] by (simp add: enc)
  have lt: "list_all (\<lambda>v. v < 64) (b64_digits bs)" by (rule b64_digits_lt)
  have "?k < 3" by simp
  then consider "?k = 0" | "?k = 1" | "?k = 2" by linarith
  then show ?thesis
  proof cases
    case 1
    then show ?thesis using strip_padding_0 [OF lt] by (simp add: enc)
  next
    case 2
    with len have l: "Suc (length (b64_digits bs)) mod 4 = 0" by simp
    then have ne: "b64_digits bs \<noteq> []" by auto
    show ?thesis using strip_padding_1 [OF lt ne l] 2 by (simp add: enc)
  next
    case 3
    with len have l: "Suc (Suc (length (b64_digits bs))) mod 4 = 0" by simp
    show ?thesis using strip_padding_2 [OF l] 3 by (simp add: enc replicate_2)
  qed
qed

lemma filter_b64_encode:
  "filter (\<lambda>c. \<not> is_ascii_whitespace c) (b64_encode bs) = b64_encode bs"
  by (simp only: b64_encode_digits filter_b64_chars [OF b64_digits_lt])

lemma forgiving_base64_decode_encode:
  "forgiving_base64_decode (b64_encode bs) = Some bs"
proof -
  have l: "length (map b64_char (b64_digits bs)) mod 4 \<noteq> 1"
    using length_b64_digits [of bs] by simp
  show ?thesis
    unfolding forgiving_base64_decode_def filter_b64_encode strip_padding_encode Let_def
    using l by (simp only: if_False those_b64_value [OF b64_digits_lt] option.case b64_loop_digits)
qed

lemma ucast_byte_roundtrip: "(ucast (ucast (b :: byte) :: code_unit) :: byte) = b"
  by (simp add: ucast_up_ucast_id is_up)

lemma ucast_byte_le: "\<not> 255 < (ucast (b :: byte) :: code_unit)"
proof -
  have "unat (ucast b :: code_unit) = unat b"
    by (simp add: unsigned_ucast_eq take_bit_nat_eq_self unat_byte_lt [simplified] less_trans [OF unat_byte_lt])
  then have "unat (ucast b :: code_unit) < 256" using unat_byte_lt [of b] by simp
  then show ?thesis by (simp add: word_less_nat_alt)
qed

lemma btoa_bytes: "btoa (map ucast (bs :: byte list)) = Inr (b64_encode bs)"
proof -
  have "\<not> list_ex (\<lambda>c. 255 < c) (map ucast bs :: jsstring)"
    by (simp add: list_ex_iff ucast_byte_le)
  moreover have "map ucast (map ucast bs :: jsstring) = bs"
    by (simp add: ucast_byte_roundtrip comp_def)
  ultimately show ?thesis by (simp add: btoa_def)
qed

lemma arrayBufferToBase64_total: "arrayBufferToBase64 b = Inr (b64_encode b)"
  by (simp add: arrayBufferToBase64_def btoa_bytes)

lemma base64ToArrayBuffer_decode:
  "base64ToArrayBuffer t =
     (case forgiving_base64_decode t of None \<Rightarrow> Inl InvalidCharacterError | Some bs \<Rightarrow> Inr bs)"
  by (simp add: base64ToArrayBuffer_def atob_def ucast_byte_roundtrip comp_def
           split: option.splits)

lemma base64ToArrayBuffer_encode: "base64ToArrayBuffer (b64_encode b) = Inr b"
  by (simp add: base64ToArrayBuffer_decode forgiving_base64_decode_encode)

section \<open>Transport encoding\<close>

text \<open>
  Claim C7. Decoding the transport text of any byte array gives the byte array back:
  \<open>arrayBufferToBase64\<close> never throws, and \<open>base64ToArrayBuffer\<close> of its result is the
  array it was given.
\<close>

theorem transport_encoding_round_trip:
  "(case arrayBufferToBase64 b of
      Inl e \<Rightarrow> Inl e
    | Inr t \<Rightarrow> base64ToArrayBuffer t) = Inr b"
  by (simp add: arrayBufferToBase64_total base64ToArrayBuffer_encode)

section \<open>Blobs, nonces and the session\<close>

lemma length_getRandomValues: "length (fst (getRandomValues n rng)) = n"
  by (simp add: getRandomValues_def)

lemma encryptBinary_blob:
  "encryptBinary P data k rng =
     (Inr (b64_encode (fst (getRandomValues IV_LENGTH rng) @
                       aes_gcm_seal P k (fst (getRandomValues IV_LENGTH rng)) data)),
      snd (getRandomValues IV_LENGTH rng))"
  by (simp add: encryptBinary_def arrayBufferToBase64_total subtle_encrypt_def split: prod.splits)

lemma encryptString_blob:
  "encryptString P p k rng =
     (Inr (b64_encode (fst (getRandomValues IV_LENGTH rng) @
                       aes_gcm_seal P k (fst (getRandomValues IV_LENGTH rng))
                         (TextEncoder_encode p))),
      snd (getRandomValues IV_LENGTH rng))"
  by (simp add: encryptString_def arrayBufferToBase64_total subtle_encrypt_def split: prod.splits)

lemma decryptBinary_encoded:
  "decryptBinary P (b64_encode bytes) k =
     subtle_decrypt P k (take IV_LENGTH bytes) (drop IV_LENGTH bytes)"
  by (simp add: decryptBinary_def base64ToArrayBuffer_encode)

lemma decryptString_encoded:
  "decryptString P (b64_encode bytes) k =
     (case subtle_decrypt P k (take IV_LENGTH bytes) (drop IV_LENGTH bytes) of
        Inl e \<Rightarrow> Inl e
      | Inr decrypted \<Rightarrow> Inr (TextDecoder_decode decrypted))"
  by (simp add: decryptString_def base64ToArrayBuffer_encode)

lemma split_nonce:
  "length iv = IV_LENGTH \<Longrightarrow> take IV_LENGTH (iv @ ct) = iv \<and> drop IV_LENGTH (iv @ ct) = ct"
  by simp

text \<open>
  Claim C5. The blob of \<open>encryptString\<close> and of \<open>encryptBinary\<close> is the base64 text of
  the 12 bytes drawn as nonce followed by the output of AES-GCM sealing, with nothing
  before or between them: decoding it gives exactly those bytes back. \<open>decryptString\<close>
  and \<open>decryptBinary\<close> decode the text, take the first 12 bytes as nonce and hand the
  rest to the authenticated decryption; on a blob made of a nonce and sealed bytes the
  decryption is called with that nonce and those bytes.
\<close>

theorem blob_wire_format:
  "fst (encryptString P p k rng) =
     Inr (b64_encode (fst (getRandomValues IV_LENGTH rng) @
                      aes_gcm_seal P k (fst (getRandomValues IV_LENGTH rng))
                        (TextEncoder_encode p))) \<and>
   fst (encryptBinary P b k rng) =
     Inr (b64_encode (fst (getRandomValues IV_LENGTH rng) @
                      aes_gcm_seal P k (fst (getRandomValues IV_LENGTH rng)) b)) \<and>
   length (fst (getRandomValues IV_LENGTH rng)) = 12 \<and>
   base64ToArrayBuffer (b64_encode (nonce @ sealed)) = Inr (nonce @ sealed) \<and>
   decryptString P text k =
     (case base64ToArrayBuffer text of
        Inl e \<Rightarrow> Inl e
      | Inr bytes \<Rightarrow>
          (case subtle_decrypt P k (take 12 bytes) (drop 12 bytes) of
             Inl e \<Rightarrow> Inl e
           | Inr plain \<Rightarrow> Inr (TextDecoder_decode plain))) \<and>
   decryptBinary P text k =
     (case base64ToArrayBuffer text of
        Inl e \<Rightarrow> Inl e
      | Inr bytes \<Rightarrow> subtle_decrypt P k (take 12 bytes) (drop 12 bytes)) \<and>
   decryptBinary P (b64_encode (fst (getRandomValues IV_LENGTH rng) @ sealed)) k =
     subtle_decrypt P k (fst (getRandomValues IV_LENGTH rng)) sealed"
  unfolding decryptString_def decryptBinary_def IV_LENGTH_def
  by (simp add: encryptString_blob [unfolded IV_LENGTH_def]
        encryptBinary_blob [unfolded IV_LENGTH_def] length_getRandomValues
        base64ToArrayBuffer_encode)

lemma subtle_decrypt_short:
  "length data < TAG_LENGTH \<Longrightarrow> subtle_decrypt P k iv data = Inl OperationError"
  by (simp add: subtle_decrypt_def)

text \<open>
  Claim C9. A blob that decodes to fewer than 12 bytes makes \<open>decryptString\<close> fail with
  \<open>DecryptionFailed\<close> (the \<open>OperationError\<close> of \<open>crypto.subtle.decrypt\<close>, which gets
  an empty ciphertext), under every key and whatever the primitives are; a blob that
  does not decode at all fails in \<open>base64ToArrayBuffer\<close> with \<open>MalformedEncoding\<close>.
  No other outcome exists.
\<close>

theorem truncated_blob_fails:
  assumes "base64ToArrayBuffer blob = Inr bytes" and "length bytes < IV_LENGTH"
  shows "decryptString P blob k = Inl DecryptionFailed"
  using assms by (simp add: decryptString_def subtle_decrypt_short TAG_LENGTH_def)

lemma b64_encode_inj: "b64_encode a = b64_encode b \<Longrightarrow> a = b"
proof -
  assume "b64_encode a = b64_encode b"
  then have "base64ToArrayBuffer (b64_encode a) = base64ToArrayBuffer (b64_encode b)" by simp
  then show "a = b" by (simp only: base64ToArrayBuffer_encode sum.inject)
qed




text \<open>
  Claim C6. After \<open>clear()\<close> each of the six high-level operations fails with
  \<open>NotInitialized\<close>; after an \<open>initialize(password, salt)\<close> that completed, the service
  is initialized and none of them fails with \<open>NotInitialized\<close>.
\<close>

theorem session_lifecycle:
  assumes "initialize P password salt_text this = (Inr (), ready)"
  shows "fst (encryptNote P t c (clear this) rng) = Inl NotInitialized \<and>
         decryptNote P t c (clear this) = Inl NotInitialized \<and>
         fst (encryptImage P img (clear this) rng) = Inl NotInitialized \<and>
         decryptImage P blob (clear this) = Inl NotInitialized \<and>
         fst (encryptLabel P name (clear this) rng) = Inl NotInitialized \<and>
         decryptLabel P blob (clear this) = Inl NotInitialized \<and>
         isInitialized ready \<and> \<not> isInitialized (clear this) \<and>
         fst (encryptNote P t c ready rng) \<noteq> Inl NotInitialized \<and>
         decryptNote P t c ready \<noteq> Inl NotInitialized \<and>
         fst (encryptImage P img ready rng) \<noteq> Inl NotInitialized \<and>
         decryptImage P blob ready \<noteq> Inl NotInitialized \<and>
         fst (encryptLabel P name ready rng) \<noteq> Inl NotInitialized \<and>
         decryptLabel P blob ready \<noteq> Inl NotInitialized"
proof -
  from assms obtain k where k: "key ready = Some k"
    by (auto simp: initialize_def split: sum.splits)
  have cleared: "key (clear this) = None" by (simp add: clear_def)
  have ds: "decryptString P x k \<noteq> Inl ServiceNotInitialized" for x
    by (simp add: decryptString_def subtle_decrypt_def base64ToArrayBuffer_decode
          split: sum.splits option.splits)
  have db: "decryptBinary P x k \<noteq> Inl ServiceNotInitialized" for x
    by (simp add: decryptBinary_def subtle_decrypt_def base64ToArrayBuffer_decode
          split: sum.splits option.splits)
  have dn: "decryptNote P t c ready \<noteq> Inl ServiceNotInitialized"
    using ds by (auto simp: decryptNote_def k split: sum.splits)
  show ?thesis
    using ds db dn
    by (simp add: cleared k encryptNote_def decryptNote_def encryptImage_def decryptImage_def
          encryptLabel_def decryptLabel_def isInitialized_def encryptString_blob
          encryptBinary_blob)
qed

text \<open>
  Claim C4. \<open>deriveKeyFromPassword\<close> takes neither the generator nor the service: its
  result is a function of its two arguments, and depends on them only through the UTF-8
  bytes of the password and the decoded bytes of the salt. Equal inputs give the same
  key, and \<open>initialize\<close> stores that key whatever the service held before.
\<close>

theorem kdf_determinism:
  assumes "TextEncoder_encode password = TextEncoder_encode password'"
      and "base64ToArrayBuffer salt_text = base64ToArrayBuffer salt_text'"
  shows "deriveKeyFromPassword P password salt_text =
           deriveKeyFromPassword P password' salt_text' \<and>
         fst (initialize P password salt_text this) =
           fst (initialize P password' salt_text' this') \<and>
         (case deriveKeyFromPassword P password salt_text of
            Inl e \<Rightarrow> key (snd (initialize P password salt_text this)) = key this
          | Inr k \<Rightarrow> key (snd (initialize P password salt_text this)) = Some k \<and>
                     key (snd (initialize P password' salt_text' this')) = Some k)"
  using assms
  by (simp add: deriveKeyFromPassword_def initialize_def split: sum.splits)

lemma nonce_draws:
  "fst (getRandomValues IV_LENGTH rng) = map rng [0..<12] \<and>
   fst (getRandomValues IV_LENGTH (snd (getRandomValues IV_LENGTH rng))) =
     map (\<lambda>i. rng (12 + i)) [0..<12]"
  by (simp add: getRandomValues_def IV_LENGTH_def)

lemma blobs_equal_iff:
  assumes "length iv = length iv'"
  shows "(b64_encode (iv @ f iv) = b64_encode (iv' @ f iv')) = (iv = iv')"
  using assms b64_encode_inj by (metis append_eq_append_conv)

lemma map_shift: "map (\<lambda>i. f (n + i)) [0..<m] = map f [n..<m + n]"
proof -
  have "map f [n..<m + n] = map f (map (\<lambda>i. i + n) [0..<m])"
    by (simp only: map_add_upt)
  then show ?thesis by (simp add: comp_def add.commute)
qed

lemma second_nonce:
  "fst (getRandomValues IV_LENGTH (snd (getRandomValues IV_LENGTH rng))) = map rng [12..<24]"
  using map_shift [of rng 12 12] by (simp add: getRandomValues_def IV_LENGTH_def)

lemma first_nonce: "fst (getRandomValues IV_LENGTH rng) = map rng [0..<12]"
  by (simp add: getRandomValues_def IV_LENGTH_def)

lemma same_blob_iff_same_nonce:
  "(b64_encode (map rng [0..<12] @ f (map rng [0..<12])) =
    b64_encode (map rng [12..<24] @ f (map rng [12..<24])))
   = (map rng [0..<12] = map rng [12..<24])"
  by (rule blobs_equal_iff) simp

lemma encryptString_first:
  "fst (encryptString P p k rng) =
     Inr (b64_encode (map rng [0..<12] @
                      aes_gcm_seal P k (map rng [0..<12]) (TextEncoder_encode p)))"
  by (simp only: encryptString_blob fst_conv first_nonce)

lemma encryptString_second:
  "fst (encryptString P p k (snd (encryptString P q k rng))) =
     Inr (b64_encode (map rng [12..<24] @
                      aes_gcm_seal P k (map rng [12..<24]) (TextEncoder_encode p)))"
  by (simp only: encryptString_blob fst_conv snd_conv second_nonce)

lemma encryptBinary_first:
  "fst (encryptBinary P b k rng) =
     Inr (b64_encode (map rng [0..<12] @ aes_gcm_seal P k (map rng [0..<12]) b))"
  by (simp only: encryptBinary_blob fst_conv first_nonce)

lemma encryptBinary_second:
  "fst (encryptBinary P b k (snd (encryptBinary P c k rng))) =
     Inr (b64_encode (map rng [12..<24] @ aes_gcm_seal P k (map rng [12..<24]) b))"
  by (simp only: encryptBinary_blob fst_conv snd_conv second_nonce)

lemma second_draw:
  "fst (getRandomValues IV_LENGTH (snd (encryptString P p k rng))) = map rng [12..<24] \<and>
   fst (getRandomValues IV_LENGTH (snd (encryptBinary P b k rng))) = map rng [12..<24]"
  by (simp only: encryptString_blob encryptBinary_blob snd_conv second_nonce simp_thms)

text \<open>
  Claim C2, amended. Each call of \<open>encryptString\<close> or \<open>encryptBinary\<close> draws its own 12
  bytes from the generator (the first call bytes 0 to 11, the next one bytes 12 to 23),
  and two calls with the same plaintext and key give different blobs exactly when the
  two nonces drawn differ.
\<close>

theorem fresh_nonce_per_call:
  "(fst (encryptString P p k rng) = fst (encryptString P p k (snd (encryptString P p k rng))))
     = (map rng [0..<12] = map rng [12..<24]) \<and>
   (fst (encryptBinary P b k rng) = fst (encryptBinary P b k (snd (encryptBinary P b k rng))))
     = (map rng [0..<12] = map rng [12..<24]) \<and>
   fst (getRandomValues IV_LENGTH rng) = map rng [0..<12] \<and>
   fst (getRandomValues IV_LENGTH (snd (encryptString P p k rng))) = map rng [12..<24] \<and>
   fst (getRandomValues IV_LENGTH (snd (encryptBinary P b k rng))) = map rng [12..<24]"
proof -
  have s: "(fst (encryptString P p k rng) =
            fst (encryptString P p k (snd (encryptString P p k rng))))
           = (map rng [0..<12] = map rng [12..<24])"
    using same_blob_iff_same_nonce [of rng "\<lambda>iv. aes_gcm_seal P k iv (TextEncoder_encode p)"]
    by (simp only: encryptString_second) (simp only: encryptString_first sum.inject)
  have b: "(fst (encryptBinary P b k rng) =
            fst (encryptBinary P b k (snd (encryptBinary P b k rng))))
           = (map rng [0..<12] = map rng [12..<24])"
    using same_blob_iff_same_nonce [of rng "\<lambda>iv. aes_gcm_seal P k iv b"]
    by (simp only: encryptBinary_second) (simp only: encryptBinary_first sum.inject)
  show ?thesis
    using s b first_nonce [of rng] second_draw [of P p k rng b] by blast
qed

lemma repeating_nonce: "map repeating [0..<12] = map repeating [12..<24]"
  by (simp add: repeating_def upt_rec)

text \<open>
  Claim C2 as stated fails where the generator gives the same 12 bytes twice: nothing
  in \<open>encryptString\<close> compares a nonce with an earlier one, and the two blobs are equal.
\<close>

theorem nonce_can_repeat:
  "fst (encryptString toy_platform (ascii ''milk'') (AesGcmKey [1, 2, 3]) repeating) =
   fst (encryptString toy_platform (ascii ''milk'') (AesGcmKey [1, 2, 3])
          (snd (encryptString toy_platform (ascii ''milk'') (AesGcmKey [1, 2, 3]) repeating)))"
  by (simp only: encryptString_second) (simp only: encryptString_first repeating_nonce)

lemmas b64_eval = base64ToArrayBuffer_decode forgiving_base64_decode_def strip_padding_def
  b64_value_def is_ascii_whitespace_def ascii_def b64_pad_def Let_def

lemma decode_QUJD: "base64ToArrayBuffer (ascii ''QUJD'') = Inr [65, 66, 67]"
  by (simp add: b64_eval)

lemma decode_QQ: "base64ToArrayBuffer (ascii ''QQ=='') = Inr [65]"
  by (simp add: b64_eval)

lemma decode_QQ_unpadded: "base64ToArrayBuffer (ascii ''QQ'') = Inr [65]"
  by (simp add: b64_eval)

text \<open>Witness of C9: \<open>"QUJD"\<close> decodes to three bytes.\<close>

theorem truncated_blob_fails_witness:
  "base64ToArrayBuffer (ascii ''QUJD'') = Inr [65, 66, 67] \<and>
   length [65, 66, 67 :: byte] < IV_LENGTH \<and>
   decryptString toy_platform (ascii ''QUJD'') (AesGcmKey [1, 2, 3]) = Inl DecryptionFailed"
proof -
  have l: "length [65, 66, 67 :: byte] < IV_LENGTH" by (simp add: IV_LENGTH_def)
  show ?thesis
    using truncated_blob_fails [OF decode_QUJD l, of toy_platform "AesGcmKey [1, 2, 3]"]
      decode_QUJD l by simp
qed


text \<open>Witness of C4: the salt texts \<open>"QQ=="\<close> and \<open>"QQ"\<close> decode to the same byte.\<close>

theorem kdf_determinism_witness:
  "TextEncoder_encode (ascii ''correcthorse123'') = TextEncoder_encode (ascii ''correcthorse123'') \<and>
   base64ToArrayBuffer (ascii ''QQ=='') = base64ToArrayBuffer (ascii ''QQ'') \<and>
   deriveKeyFromPassword toy_platform (ascii ''correcthorse123'') (ascii ''QQ=='') =
     deriveKeyFromPassword toy_platform (ascii ''correcthorse123'') (ascii ''QQ'')"
proof -
  have h: "base64ToArrayBuffer (ascii ''QQ=='') = base64ToArrayBuffer (ascii ''QQ'')"
    by (simp only: decode_QQ decode_QQ_unpadded)
  show ?thesis
    using kdf_determinism [OF refl h, of toy_platform "ascii ''correcthorse123''"] h
    by blast
qed

lemma initialize_ok:
  "fst (initialize toy_platform (ascii ''correcthorse123'') (ascii ''QUJD'')
          new_EncryptionService) = Inr ()"
  by (simp add: initialize_def deriveKeyFromPassword_def decode_QUJD)

text \<open>Witness of C6.\<close>

theorem session_lifecycle_witness:
  "initialize toy_platform (ascii ''correcthorse123'') (ascii ''QUJD'') new_EncryptionService
     = (Inr (), snd (initialize toy_platform (ascii ''correcthorse123'') (ascii ''QUJD'')
                       new_EncryptionService)) \<and>
   fst (encryptNote toy_platform (ascii ''Groceries'') (ascii ''milk'')
          (clear new_EncryptionService) repeating) = Inl NotInitialized \<and>
   decryptLabel toy_platform (ascii ''QUJD'') (clear new_EncryptionService) = Inl NotInitialized \<and>
   fst (encryptNote toy_platform (ascii ''Groceries'') (ascii ''milk'')
          (snd (initialize toy_platform (ascii ''correcthorse123'') (ascii ''QUJD'')
                  new_EncryptionService)) repeating) \<noteq> Inl NotInitialized \<and>
   decryptLabel toy_platform (ascii ''QUJD'')
     (snd (initialize toy_platform (ascii ''correcthorse123'') (ascii ''QUJD'')
             new_EncryptionService)) \<noteq> Inl NotInitialized"
proof -
  have h: "initialize toy_platform (ascii ''correcthorse123'') (ascii ''QUJD'')
             new_EncryptionService
           = (Inr (), snd (initialize toy_platform (ascii ''correcthorse123'') (ascii ''QUJD'')
                             new_EncryptionService))"
    using initialize_ok by (metis prod.collapse)
  show ?thesis
    using session_lifecycle [OF h, of "ascii ''Groceries''" "ascii ''milk''" repeating
        "[]" "ascii ''QUJD''" "ascii ''Groceries''"] h
    by blast
qed

section \<open>UTF-8: decoding an encoding\<close>

declare utf8_run.simps(2) [simp del]

lemma utf8_reset_initial:
  "utf8_reset (st\<lparr>lower_boundary := 0x80, upper_boundary := 0xBF\<rparr>)
     \<lparr>lower_boundary := 0x80, upper_boundary := 0xBF\<rparr> = utf8_initial"
  by (simp add: utf8_reset_def utf8_initial_def)

lemma utf8_reset_initial':
  "utf8_reset st \<lparr>lower_boundary := 0x80, upper_boundary := 0xBF\<rparr> = utf8_initial"
  by (simp add: utf8_reset_def utf8_initial_def)

lemma utf8_initial_fields:
  "code_point utf8_initial = 0" "bytes_seen utf8_initial = 0" "bytes_needed utf8_initial = 0"
  "lower_boundary utf8_initial = 0x80" "upper_boundary utf8_initial = 0xBF"
  by (simp_all add: utf8_initial_def)

lemma utf8_run_lead:
  "bytes_needed st = 0 \<Longrightarrow>
     utf8_run st (x # xs) = fst (utf8_lead st (unat x)) @ utf8_run (snd (utf8_lead st (unat x))) xs"
  by (simp only: utf8_run.simps(2) if_True simp_thms)

lemma utf8_run_last:
  assumes "bytes_needed st \<noteq> 0" "lower_boundary st \<le> unat y" "unat y \<le> upper_boundary st"
    "Suc (bytes_seen st) = bytes_needed st"
  shows "utf8_run st (y # rest) =
           (code_point st * 64 + unat y mod 64) # utf8_run utf8_initial rest"
proof -
  have r: "\<not> (unat y < lower_boundary st \<or> upper_boundary st < unat y)"
    using assms(2,3) by simp
  show ?thesis
    using assms(1) by (simp only: utf8_run.simps(2) [of st y rest] assms(4) r if_False if_True utf8_reset_initial' simp_thms)
qed

lemma utf8_run_more:
  assumes "bytes_needed st \<noteq> 0" "lower_boundary st \<le> unat y" "unat y \<le> upper_boundary st"
    "Suc (bytes_seen st) \<noteq> bytes_needed st"
  shows "utf8_run st (y # rest) =
           utf8_run (st\<lparr>lower_boundary := 0x80, upper_boundary := 0xBF,
                          code_point := code_point st * 64 + unat y mod 64,
                          bytes_seen := Suc (bytes_seen st)\<rparr>) rest"
proof -
  have r: "\<not> (unat y < lower_boundary st \<or> upper_boundary st < unat y)"
    using assms(2,3) by simp
  show ?thesis
    using assms(1,4) by (simp only: utf8_run.simps(2) [of st y rest] r if_False if_True simp_thms)
qed

lemma utf8_run_1:
  "unat x \<le> 0x7F \<Longrightarrow> utf8_run utf8_initial (x # rest) = unat x # utf8_run utf8_initial rest"
  by (simp add: utf8_run_lead [OF utf8_initial_fields(3)] utf8_lead_def)

lemma utf8_lead_2:
  "0xC2 \<le> b \<Longrightarrow> b \<le> 0xDF \<Longrightarrow>
     utf8_lead utf8_initial b = ([], utf8_initial\<lparr>bytes_needed := 1, code_point := b mod 32\<rparr>)"
  by (simp add: utf8_lead_def)

lemma utf8_lead_3:
  "0xE0 \<le> b \<Longrightarrow> b \<le> 0xEF \<Longrightarrow>
     utf8_lead utf8_initial b =
       ([], utf8_initial\<lparr>lower_boundary := (if b = 0xE0 then 0xA0 else 0x80),
                          upper_boundary := (if b = 0xED then 0x9F else 0xBF),
                          bytes_needed := 2, code_point := b mod 16\<rparr>)"
  by (simp add: utf8_lead_def utf8_initial_fields)

lemma utf8_lead_4:
  "0xF0 \<le> b \<Longrightarrow> b \<le> 0xF4 \<Longrightarrow>
     utf8_lead utf8_initial b =
       ([], utf8_initial\<lparr>lower_boundary := (if b = 0xF0 then 0x90 else 0x80),
                          upper_boundary := (if b = 0xF4 then 0x8F else 0xBF),
                          bytes_needed := 3, code_point := b mod 8\<rparr>)"
  by (simp add: utf8_lead_def utf8_initial_fields)

lemma utf8_run_2:
  assumes "0xC2 \<le> unat x" "unat x \<le> 0xDF" "0x80 \<le> unat y" "unat y \<le> 0xBF"
  shows "utf8_run utf8_initial (x # y # rest) =
           (unat x mod 32 * 64 + unat y mod 64) # utf8_run utf8_initial rest"
proof -
  let ?st = "utf8_initial\<lparr>bytes_needed := 1, code_point := unat x mod 32\<rparr>"
  have "utf8_run utf8_initial (x # y # rest) = utf8_run ?st (y # rest)"
    by (simp only: utf8_run_lead [OF utf8_initial_fields(3)] utf8_lead_2 [OF assms(1,2)] fst_conv snd_conv append_Nil)
  also have "\<dots> = (unat x mod 32 * 64 + unat y mod 64) # utf8_run utf8_initial rest"
    using utf8_run_last [of ?st y rest] assms(3,4) by (simp add: utf8_initial_fields)
  finally show ?thesis .
qed

lemma utf8_run_3:
  assumes "0xE0 \<le> unat x" "unat x \<le> 0xEF"
    "(if unat x = 0xE0 then 0xA0 else 0x80) \<le> unat y"
    "unat y \<le> (if unat x = 0xED then 0x9F else 0xBF)"
    "0x80 \<le> unat z" "unat z \<le> 0xBF"
  shows "utf8_run utf8_initial (x # y # z # rest) =
           ((unat x mod 16 * 64 + unat y mod 64) * 64 + unat z mod 64)
             # utf8_run utf8_initial rest"
proof -
  let ?st = "utf8_initial\<lparr>lower_boundary := (if unat x = 0xE0 then 0xA0 else 0x80),
                          upper_boundary := (if unat x = 0xED then 0x9F else 0xBF),
                          bytes_needed := 2, code_point := unat x mod 16\<rparr>"
  let ?st2 = "?st\<lparr>lower_boundary := 0x80, upper_boundary := 0xBF,
                    code_point := code_point ?st * 64 + unat y mod 64,
                    bytes_seen := Suc (bytes_seen ?st)\<rparr>"
  have "utf8_run utf8_initial (x # y # z # rest) = utf8_run ?st (y # z # rest)"
    by (simp only: utf8_run_lead [OF utf8_initial_fields(3)] utf8_lead_3 [OF assms(1,2)] fst_conv snd_conv append_Nil)
  also have "\<dots> = utf8_run ?st2 (z # rest)"
    using utf8_run_more [of ?st y "z # rest"] assms(3,4) by (simp add: utf8_initial_fields)
  also have "\<dots> = ((unat x mod 16 * 64 + unat y mod 64) * 64 + unat z mod 64)
             # utf8_run utf8_initial rest"
    using utf8_run_last [of ?st2 z rest] assms(5,6) by (simp add: utf8_initial_fields)
  finally show ?thesis .
qed

lemma utf8_run_4:
  assumes "0xF0 \<le> unat x" "unat x \<le> 0xF4"
    "(if unat x = 0xF0 then 0x90 else 0x80) \<le> unat y"
    "unat y \<le> (if unat x = 0xF4 then 0x8F else 0xBF)"
    "0x80 \<le> unat z" "unat z \<le> 0xBF" "0x80 \<le> unat w" "unat w \<le> 0xBF"
  shows "utf8_run utf8_initial (x # y # z # w # rest) =
           (((unat x mod 8 * 64 + unat y mod 64) * 64 + unat z mod 64) * 64 + unat w mod 64)
             # utf8_run utf8_initial rest"
proof -
  let ?st = "utf8_initial\<lparr>lower_boundary := (if unat x = 0xF0 then 0x90 else 0x80),
                          upper_boundary := (if unat x = 0xF4 then 0x8F else 0xBF),
                          bytes_needed := 3, code_point := unat x mod 8\<rparr>"
  let ?st2 = "?st\<lparr>lower_boundary := 0x80, upper_boundary := 0xBF,
                    code_point := code_point ?st * 64 + unat y mod 64,
                    bytes_seen := Suc (bytes_seen ?st)\<rparr>"
  let ?st3 = "?st2\<lparr>lower_boundary := 0x80, upper_boundary := 0xBF,
                    code_point := code_point ?st2 * 64 + unat z mod 64,
                    bytes_seen := Suc (bytes_seen ?st2)\<rparr>"
  have "utf8_run utf8_initial (x # y # z # w # rest) = utf8_run ?st (y # z # w # rest)"
    by (simp only: utf8_run_lead [OF utf8_initial_fields(3)] utf8_lead_4 [OF assms(1,2)] fst_conv snd_conv append_Nil)
  also have "\<dots> = utf8_run ?st2 (z # w # rest)"
    using utf8_run_more [of ?st y "z # w # rest"] assms(3,4) by (simp add: utf8_initial_fields)
  also have "\<dots> = utf8_run ?st3 (w # rest)"
    using utf8_run_more [of ?st2 z "w # rest"] assms(5,6) by (simp add: utf8_initial_fields)
  also have "\<dots> = (((unat x mod 8 * 64 + unat y mod 64) * 64 + unat z mod 64) * 64 + unat w mod 64)
             # utf8_run utf8_initial rest"
    using utf8_run_last [of ?st3 w rest] assms(7,8) by (simp add: utf8_initial_fields)
  finally show ?thesis .
qed

lemma unat_of_nat_byte: "n < 256 \<Longrightarrow> unat (of_nat n :: byte) = n"
  by (simp add: unat_of_nat)

lemma add_mod_32: "a < 32 \<Longrightarrow> (192 + a) mod 32 = (a::nat)"
  using mod_mult_self3 [of 6 32 a] by simp

lemma add_mod_16: "a < 16 \<Longrightarrow> (224 + a) mod 16 = (a::nat)"
  using mod_mult_self3 [of 14 16 a] by simp

lemma add_mod_8: "a < 8 \<Longrightarrow> (240 + a) mod 8 = (a::nat)"
  using mod_mult_self3 [of 30 8 a] by simp

lemma add_mod_64: "b < 64 \<Longrightarrow> (128 + b) mod 64 = (b::nat)"
  using mod_mult_self3 [of 2 64 b] by simp

lemma div_4096: "(cp::nat) div 4096 = cp div 64 div 64"
  by (simp add: div_mult2_eq [symmetric])

lemma div_262144: "(cp::nat) div 262144 = cp div 64 div 64 div 64"
  by (simp add: div_mult2_eq [symmetric])

lemma decode_encode_1:
  assumes "cp < 0x80"
  shows "utf8_run utf8_initial (utf8_encode_code_point cp @ rest) = cp # utf8_run utf8_initial rest"
proof -
  have u: "unat (of_nat cp :: byte) = cp" using assms by (simp add: unat_of_nat_byte)
  have "unat (of_nat cp :: byte) \<le> 0x7F" using assms u by simp
  from utf8_run_1 [OF this] show ?thesis using assms by (simp add: utf8_encode_code_point_def u)
qed

lemma decode_encode_2:
  assumes "0x80 \<le> cp" "cp < 0x800"
  shows "utf8_run utf8_initial (utf8_encode_code_point cp @ rest) = cp # utf8_run utf8_initial rest"
proof -
  define q where "q = cp div 64"
  define r where "r = cp mod 64"
  have cp: "cp = q * 64 + r" and r: "r < 64" by (simp_all add: q_def r_def)
  have q: "2 \<le> q" "q < 32" using assms cp r by linarith+
  have ux: "unat (of_nat (192 + q) :: byte) = 192 + q"
    by (rule unat_of_nat_byte) (use q in simp)
  have uy: "unat (of_nat (128 + r) :: byte) = 128 + r"
    by (rule unat_of_nat_byte) (use r in simp)
  have enc: "utf8_encode_code_point cp = [of_nat (192 + q), of_nat (128 + r)]"
    using assms by (simp add: utf8_encode_code_point_def q_def r_def)
  have "utf8_run utf8_initial (of_nat (192 + q) # of_nat (128 + r) # rest) =
          ((192 + q) mod 32 * 64 + (128 + r) mod 64) # utf8_run utf8_initial rest"
    using utf8_run_2 [of "of_nat (192 + q)" "of_nat (128 + r)" rest] q r by (simp only: ux uy)
  then have "utf8_run utf8_initial ([of_nat (192 + q), of_nat (128 + r)] @ rest) =
          (q * 64 + r) # utf8_run utf8_initial rest"
    using q r by (simp only: add_mod_32 add_mod_64 append_Cons append_Nil)
  then show ?thesis unfolding enc by (simp only: cp [symmetric])
qed

lemma decode_encode_3:
  assumes "0x800 \<le> cp" "cp < 0x10000" "cp < 0xD800 \<or> 0xDFFF < cp"
  shows "utf8_run utf8_initial (utf8_encode_code_point cp @ rest) = cp # utf8_run utf8_initial rest"
proof -
  define q where "q = cp div 64"
  define r where "r = cp mod 64"
  define a where "a = q div 64"
  define b where "b = q mod 64"
  have cp: "cp = q * 64 + r" and r: "r < 64" by (simp_all add: q_def r_def)
  have q: "q = a * 64 + b" and b: "b < 64" by (simp_all add: a_def b_def)
  have a: "a < 16" using assms cp q r b by linarith
  have lo: "a = 0 \<Longrightarrow> 32 \<le> b" using assms cp q r b by linarith
  have hi: "a = 13 \<Longrightarrow> b < 32" using assms cp q r b by linarith
  have ux: "unat (of_nat (224 + a) :: byte) = 224 + a"
    by (rule unat_of_nat_byte) (use a in simp)
  have uy: "unat (of_nat (128 + b) :: byte) = 128 + b"
    by (rule unat_of_nat_byte) (use b in simp)
  have uz: "unat (of_nat (128 + r) :: byte) = 128 + r"
    by (rule unat_of_nat_byte) (use r in simp)
  have enc: "utf8_encode_code_point cp = [of_nat (224 + a), of_nat (128 + b), of_nat (128 + r)]"
    using assms by (simp add: utf8_encode_code_point_def q_def r_def a_def b_def div_4096)
  have c1: "(if 224 + a = 0xE0 then 0xA0 else 0x80) \<le> 128 + b" using lo by simp
  have c2: "128 + b \<le> (if 224 + a = 0xED then 0x9F else 0xBF)" using hi b by auto
  have "utf8_run utf8_initial (of_nat (224 + a) # of_nat (128 + b) # of_nat (128 + r) # rest) =
          (((224 + a) mod 16 * 64 + (128 + b) mod 64) * 64 + (128 + r) mod 64)
            # utf8_run utf8_initial rest"
    using utf8_run_3 [of "of_nat (224 + a)" "of_nat (128 + b)" "of_nat (128 + r)" rest] a b r c1 c2
    by (simp only: ux uy uz)
  then have "utf8_run utf8_initial
               ([of_nat (224 + a), of_nat (128 + b), of_nat (128 + r)] @ rest) =
          ((a * 64 + b) * 64 + r) # utf8_run utf8_initial rest"
    using a b r by (simp only: add_mod_16 add_mod_64 append_Cons append_Nil)
  then show ?thesis unfolding enc by (simp only: cp [symmetric] q [symmetric])
qed

lemma decode_encode_4:
  assumes "0x10000 \<le> cp" "cp < 0x110000"
  shows "utf8_run utf8_initial (utf8_encode_code_point cp @ rest) = cp # utf8_run utf8_initial rest"
proof -
  define q where "q = cp div 64"
  define r where "r = cp mod 64"
  define a where "a = q div 64"
  define b where "b = q mod 64"
  define c where "c = a div 64"
  define d where "d = a mod 64"
  have cp: "cp = q * 64 + r" and r: "r < 64" by (simp_all add: q_def r_def)
  have q: "q = a * 64 + b" and b: "b < 64" by (simp_all add: a_def b_def)
  have a: "a = c * 64 + d" and d: "d < 64" by (simp_all add: c_def d_def)
  have c: "c < 5" using assms cp q a r b d by linarith
  have lo: "c = 0 \<Longrightarrow> 16 \<le> d" using assms cp q a r b d by linarith
  have hi: "c = 4 \<Longrightarrow> d < 16" using assms cp q a r b d by linarith
  have ux: "unat (of_nat (240 + c) :: byte) = 240 + c"
    by (rule unat_of_nat_byte) (use c in simp)
  have uy: "unat (of_nat (128 + d) :: byte) = 128 + d"
    by (rule unat_of_nat_byte) (use d in simp)
  have uz: "unat (of_nat (128 + b) :: byte) = 128 + b"
    by (rule unat_of_nat_byte) (use b in simp)
  have uw: "unat (of_nat (128 + r) :: byte) = 128 + r"
    by (rule unat_of_nat_byte) (use r in simp)
  have enc: "utf8_encode_code_point cp =
      [of_nat (240 + c), of_nat (128 + d), of_nat (128 + b), of_nat (128 + r)]"
    using assms
    by (simp add: utf8_encode_code_point_def q_def r_def a_def b_def c_def d_def
          div_4096 div_262144)
  have c1: "(if 240 + c = 0xF0 then 0x90 else 0x80) \<le> 128 + d" using lo by simp
  have c2: "128 + d \<le> (if 240 + c = 0xF4 then 0x8F else 0xBF)" using hi d by auto
  have c8: "c < 8" using c by simp
  have "utf8_run utf8_initial
          (of_nat (240 + c) # of_nat (128 + d) # of_nat (128 + b) # of_nat (128 + r) # rest) =
          ((((240 + c) mod 8 * 64 + (128 + d) mod 64) * 64 + (128 + b) mod 64) * 64
             + (128 + r) mod 64) # utf8_run utf8_initial rest"
    using utf8_run_4 [of "of_nat (240 + c)" "of_nat (128 + d)" "of_nat (128 + b)" "of_nat (128 + r)" rest]
      c b d r c1 c2
    by (simp only: ux uy uz uw)
  then have "utf8_run utf8_initial
               ([of_nat (240 + c), of_nat (128 + d), of_nat (128 + b), of_nat (128 + r)] @ rest) =
          (((c * 64 + d) * 64 + b) * 64 + r) # utf8_run utf8_initial rest"
    using c8 b d r by (simp only: add_mod_8 add_mod_64 append_Cons append_Nil)
  then show ?thesis unfolding enc by (simp only: cp [symmetric] q [symmetric] a [symmetric])
qed

lemma decode_encode_code_point:
  assumes "is_scalar cp"
  shows "utf8_run utf8_initial (utf8_encode_code_point cp @ rest) = cp # utf8_run utf8_initial rest"
proof -
  consider "cp < 0x80" | "0x80 \<le> cp" "cp < 0x800" | "0x800 \<le> cp" "cp < 0x10000"
    | "0x10000 \<le> cp" "cp < 0x110000"
    using assms unfolding is_scalar_def by linarith
  then show ?thesis
  proof cases
    case 1 then show ?thesis by (rule decode_encode_1)
  next
    case 2 then show ?thesis by (rule decode_encode_2)
  next
    case 3 then show ?thesis using assms decode_encode_3 [of cp rest] by (simp add: is_scalar_def)
  next
    case 4 then show ?thesis by (rule decode_encode_4)
  qed
qed

lemma decode_encode_code_points:
  "list_all is_scalar cps \<Longrightarrow>
     utf8_run utf8_initial (concat (map utf8_encode_code_point cps)) = cps"
  by (induction cps) (simp_all add: decode_encode_code_point utf8_initial_fields)

section \<open>Strings through \<open>TextEncoder\<close> and \<open>TextDecoder\<close>\<close>

lemma unat_code_unit_lt: "unat (c :: code_unit) < 65536"
  using unsigned_less [of c, where 'a=nat] by simp

lemma code_unit_of_unat: "(of_nat (unat c) :: code_unit) = c"
  by simp

lemma pair_value:
  assumes "0xD800 \<le> c" "c \<le> 0xDBFF" "0xDC00 \<le> d" "d \<le> (0xDFFF::nat)"
  shows "0x10000 \<le> 0x10000 + (c - 0xD800) * 0x400 + (d - 0xDC00)"
    and "0x10000 + (c - 0xD800) * 0x400 + (d - 0xDC00) < 0x110000"
    and "(0x10000 + (c - 0xD800) * 0x400 + (d - 0xDC00) - 0x10000) div 0x400 = c - 0xD800"
    and "(0x10000 + (c - 0xD800) * 0x400 + (d - 0xDC00) - 0x10000) mod 0x400 = d - 0xDC00"
proof -
  define h where "h = c - 0xD800"
  define l where "l = d - 0xDC00"
  have h: "h < 0x400" and l: "l < 0x400" using assms by (simp_all add: h_def l_def)
  show "0x10000 \<le> 0x10000 + (c - 0xD800) * 0x400 + (d - 0xDC00)" by simp
  show "0x10000 + (c - 0xD800) * 0x400 + (d - 0xDC00) < 0x110000"
    using h l unfolding h_def [symmetric] l_def [symmetric] by linarith
  show "(0x10000 + (c - 0xD800) * 0x400 + (d - 0xDC00) - 0x10000) div 0x400 = c - 0xD800"
    using l unfolding h_def [symmetric] l_def [symmetric] by simp
  show "(0x10000 + (c - 0xD800) * 0x400 + (d - 0xDC00) - 0x10000) mod 0x400 = d - 0xDC00"
    using l unfolding h_def [symmetric] l_def [symmetric] by simp
qed

lemma to_code_points_scalar: "list_all is_scalar (to_code_points s)"
proof (induction s rule: to_code_points.induct)
  case 1 show ?case by simp
next
  case (2 c)
  show ?case using unat_code_unit_lt [of c]
    by (auto simp: is_scalar_def is_lead_surrogate_def is_trail_surrogate_def)
next
  case (3 c d rest)
  show ?case
  proof (cases "is_lead_surrogate c \<and> is_trail_surrogate d")
    case True
    then have "is_scalar (0x10000 + (unat c - 0xD800) * 0x400 + (unat d - 0xDC00))"
      using pair_value(1,2) [of "unat c" "unat d"]
      by (simp add: is_scalar_def is_lead_surrogate_def is_trail_surrogate_def)
    then show ?thesis using True 3 by simp
  next
    case False
    have "is_scalar 0xFFFD" by (simp add: is_scalar_def)
    moreover have "\<not> (is_lead_surrogate c \<or> is_trail_surrogate c) \<Longrightarrow> is_scalar (unat c)"
      using unat_code_unit_lt [of c]
      by (auto simp: is_scalar_def is_lead_surrogate_def is_trail_surrogate_def)
    ultimately show ?thesis using False 3 by auto
  qed
qed

lemma from_to_code_points: "well_formed s \<Longrightarrow> from_code_points (to_code_points s) = s"
proof (induction s rule: to_code_points.induct)
  case 1 show ?case by simp
next
  case (2 c)
  then show ?case using unat_code_unit_lt [of c] by simp
next
  case (3 c d rest)
  show ?case
  proof (cases "is_lead_surrogate c")
    case True
    with 3(4) have d: "is_trail_surrogate d" and wf: "well_formed rest" by simp_all
    have b: "0xD800 \<le> unat c" "unat c \<le> 0xDBFF" "0xDC00 \<le> unat d" "unat d \<le> 0xDFFF"
      using True d by (simp_all add: is_lead_surrogate_def is_trail_surrogate_def)
    have hi: "(of_nat (0xD800 + (unat c - 0xD800)) :: code_unit) = c"
      using b(1) by (simp only: le_add_diff_inverse code_unit_of_unat)
    have lo: "(of_nat (0xDC00 + (unat d - 0xDC00)) :: code_unit) = d"
      using b(3) by (simp only: le_add_diff_inverse code_unit_of_unat)
    have "from_code_points ((0x10000 + (unat c - 0xD800) * 0x400 + (unat d - 0xDC00)) # cps)
            = c # d # from_code_points cps" for cps
      using pair_value [OF b] hi lo by (simp only: from_code_points.simps) simp
    then show ?thesis using True d 3(1) wf by simp
  next
    case False
    with 3(4) have nt: "\<not> is_trail_surrogate c" and wf: "well_formed (d # rest)" by simp_all
    show ?thesis using False nt 3(3) wf unat_code_unit_lt [of c] by simp
  qed
qed

lemma strip_bom_to_code_points:
  "\<not> starts_with_bom s \<Longrightarrow> strip_bom (to_code_points s) = to_code_points s"
proof (cases s rule: to_code_points.cases)
  case 1 then show ?thesis by (simp add: strip_bom_def)
next
  case (2 c)
  assume "\<not> starts_with_bom s"
  then have "c \<noteq> 0xFEFF" using 2 by (simp add: starts_with_bom_def)
  then have "unat c \<noteq> 0xFEFF" by (metis code_unit_of_unat of_nat_numeral)
  then show ?thesis using 2 by (simp add: strip_bom_def)
next
  case (3 c d rest)
  assume "\<not> starts_with_bom s"
  then have "c \<noteq> 0xFEFF" using 3 by (simp add: starts_with_bom_def)
  then have "unat c \<noteq> 0xFEFF" by (metis code_unit_of_unat of_nat_numeral)
  then show ?thesis using 3 by (simp add: strip_bom_def)
qed

lemma TextDecoder_TextEncoder:
  "TextDecoder_decode (TextEncoder_encode s) = from_code_points (strip_bom (to_code_points s))"
  by (simp add: TextDecoder_decode_def TextEncoder_encode_def
        decode_encode_code_points [OF to_code_points_scalar])

lemma text_round_trip:
  "well_formed s \<Longrightarrow> \<not> starts_with_bom s \<Longrightarrow> TextDecoder_decode (TextEncoder_encode s) = s"
  by (simp add: TextDecoder_TextEncoder strip_bom_to_code_points from_to_code_points)

section \<open>The cipher round trip\<close>

lemma subtle_decrypt_sealed:
  assumes "opens_own_seal P k iv data" and "length iv = IV_LENGTH"
  shows "subtle_decrypt P k (take IV_LENGTH (iv @ aes_gcm_seal P k iv data))
           (drop IV_LENGTH (iv @ aes_gcm_seal P k iv data)) = Inr data"
  using assms by (simp add: subtle_decrypt_def opens_own_seal_def)

lemma length_nonce: "length (fst (getRandomValues IV_LENGTH rng)) = IV_LENGTH"
  by (rule length_getRandomValues)

lemma binary_round_trip:
  assumes "opens_own_seal P k (fst (getRandomValues IV_LENGTH rng)) b"
  shows "encrypt_then_decrypt_binary P b k rng = Inr b"
  unfolding encrypt_then_decrypt_binary_def encryptBinary_blob fst_conv sum.case
    decryptBinary_encoded
  by (rule subtle_decrypt_sealed [OF assms length_nonce])

lemma string_round_trip_general:
  assumes "opens_own_seal P k (fst (getRandomValues IV_LENGTH rng)) (TextEncoder_encode p)"
  shows "encrypt_then_decrypt_string P p k rng =
           Inr (TextDecoder_decode (TextEncoder_encode p))"
  unfolding encrypt_then_decrypt_string_def encryptString_blob fst_conv sum.case
    decryptString_encoded
  by (simp only: subtle_decrypt_sealed [OF assms length_nonce] sum.case)

text \<open>
  Claim C1, amended. Where AES-GCM opens what it sealed under the key and the nonce
  drawn, \<open>decryptBinary(encryptBinary(b, k), k)\<close> returns \<open>b\<close> for every byte array, and
  \<open>decryptString(encryptString(p, k), k)\<close> returns \<open>p\<close> for every string that is well
  formed (no surrogate outside a pair) and does not start with U+FEFF.
\<close>

theorem cipher_round_trip:
  assumes "opens_own_seal P k (fst (getRandomValues IV_LENGTH rng)) (TextEncoder_encode p)"
      and "well_formed p" and "\<not> starts_with_bom p"
      and "opens_own_seal P k (fst (getRandomValues IV_LENGTH rng)) b"
  shows "encrypt_then_decrypt_string P p k rng = Inr p \<and>
         encrypt_then_decrypt_binary P b k rng = Inr b"
  using string_round_trip_general [OF assms(1)] text_round_trip [OF assms(2,3)]
    binary_round_trip [OF assms(4)]
  by simp

lemma map2_xor_cancel:
  "length s = length p \<Longrightarrow> map2 (XOR) (map2 (XOR) p s) s = (p :: byte list)"
proof (induction p s rule: list_induct2')
  case (4 x xs y ys)
  then show ?case by (simp add: xor.assoc)
qed simp_all

lemma length_toy_stream: "length (toy_stream k iv n) = n"
  by (simp add: toy_stream_def)

lemma length_toy_tag: "length (toy_tag k iv c) = TAG_LENGTH"
  by (simp add: toy_tag_def)

lemma toy_open_seal: "toy_open k iv (toy_seal k iv p) = Some p"
proof -
  let ?c = "map2 (XOR) p (toy_stream k iv (length p))"
  have lc: "length ?c = length p" by (simp add: length_toy_stream)
  have l: "length (toy_seal k iv p) - TAG_LENGTH = length p"
    by (simp add: toy_seal_def length_toy_tag length_toy_stream)
  have t: "take (length p) (toy_seal k iv p) = ?c" and d: "drop (length p) (toy_seal k iv p) = toy_tag k iv ?c"
    using lc by (simp_all add: toy_seal_def)
  have g: "TAG_LENGTH \<le> length (toy_seal k iv p)"
    by (simp add: toy_seal_def length_toy_tag)
  show ?thesis
    unfolding toy_open_def l t d using g
    by (simp add: map2_xor_cancel length_toy_stream)
qed

lemma toy_opens_own_seal: "opens_own_seal toy_platform k iv data"
  by (simp add: opens_own_seal_def toy_platform_def toy_open_seal)
     (simp add: toy_seal_def length_toy_tag)

lemmas text_eval = TextDecoder_TextEncoder strip_bom_def is_lead_surrogate_def
  is_trail_surrogate_def starts_with_bom_def

text \<open>Witness of C1, on a string with a two-byte, a three-byte and a four-byte code point.\<close>

theorem cipher_round_trip_witness:
  "opens_own_seal toy_platform (AesGcmKey [1, 2, 3]) (fst (getRandomValues IV_LENGTH counting))
     (TextEncoder_encode [0x6D, 0xE9, 0x20AC, 0xD83D, 0xDE00]) \<and>
   well_formed [0x6D, 0xE9, 0x20AC, 0xD83D, 0xDE00] \<and>
   \<not> starts_with_bom [0x6D, 0xE9, 0x20AC, 0xD83D, 0xDE00] \<and>
   opens_own_seal toy_platform (AesGcmKey [1, 2, 3]) (fst (getRandomValues IV_LENGTH counting))
     [0, 255, 16] \<and>
   encrypt_then_decrypt_string toy_platform [0x6D, 0xE9, 0x20AC, 0xD83D, 0xDE00]
     (AesGcmKey [1, 2, 3]) counting = Inr [0x6D, 0xE9, 0x20AC, 0xD83D, 0xDE00] \<and>
   encrypt_then_decrypt_binary toy_platform [0, 255, 16] (AesGcmKey [1, 2, 3]) counting
     = Inr [0, 255, 16]"
proof -
  have wf: "well_formed [0x6D, 0xE9, 0x20AC, 0xD83D, 0xDE00]"
    by (simp add: is_lead_surrogate_def is_trail_surrogate_def)
  have nb: "\<not> starts_with_bom [0x6D, 0xE9, 0x20AC, 0xD83D, 0xDE00]"
    by (simp add: starts_with_bom_def)
  show ?thesis
    using cipher_round_trip [OF toy_opens_own_seal wf nb toy_opens_own_seal,
        of "AesGcmKey [1, 2, 3]" counting "[0, 255, 16]"]
      toy_opens_own_seal wf nb
    by blast
qed

text \<open>
  Claim C1 as stated fails on two kinds of strings, whatever the cipher: \<open>TextDecoder\<close>
  removes a leading U+FEFF, and \<open>TextEncoder\<close> replaces a lone surrogate by U+FFFD.
\<close>

theorem string_round_trip_fails:
  "encrypt_then_decrypt_string toy_platform [0xFEFF, 0x61] (AesGcmKey [1, 2, 3]) counting
     = Inr [0x61] \<and>
   encrypt_then_decrypt_string toy_platform [0x61, 0xD83D] (AesGcmKey [1, 2, 3]) counting
     = Inr [0x61, 0xFFFD]"
  by (simp add: string_round_trip_general [OF toy_opens_own_seal] text_eval)

section \<open>Tampering with a blob\<close>

lemma flip_bit_neq: "j < 8 \<Longrightarrow> flip_bit j (x :: byte) \<noteq> x"
proof
  assume j: "j < 8" and e: "flip_bit j x = x"
  have "bit (flip_bit j x) j = (\<not> bit x j)" using j by (simp add: bit_flip_bit_iff)
  with e show False by simp
qed

lemma flip_bit_xor: "flip_bit j (x :: byte) = x XOR push_bit j 1"
  by (simp add: flip_bit_eq_xor)

lemma xor_sum_append: "xor_sum (a @ b) = xor_sum a XOR xor_sum b"
  by (induction a) (simp_all add: xor.assoc)

lemma xor_sum_update:
  "i < length xs \<Longrightarrow> xor_sum (xs[i := xs ! i XOR m]) = xor_sum xs XOR m"
proof (induction xs arbitrary: i)
  case Nil then show ?case by simp
next
  case (Cons x xs)
  show ?case
  proof (cases i)
    case 0 then show ?thesis by (simp add: xor.assoc xor.commute xor.left_commute)
  next
    case (Suc n)
    with Cons show ?thesis by (simp add: xor.assoc)
  qed
qed

lemma xor_sum_flip:
  assumes "i < length xs" and "j < 8"
  shows "xor_sum (flip_bit_at i j xs) \<noteq> xor_sum xs"
proof -
  have "xor_sum (flip_bit_at i j xs) = flip_bit j (xor_sum xs)"
    using assms(1) by (simp add: flip_bit_at_def flip_bit_xor xor_sum_update)
  then show ?thesis using flip_bit_neq [OF assms(2)] by simp
qed

lemma flip_bit_at_neq:
  assumes "i < length xs" and "j < 8"
  shows "flip_bit_at i j xs \<noteq> (xs :: byte list)"
proof
  assume "flip_bit_at i j xs = xs"
  then have "flip_bit_at i j xs ! i = xs ! i" by simp
  then show False using assms flip_bit_neq [of j "xs ! i"] by (simp add: flip_bit_at_def)
qed

lemma length_flip_bit_at: "length (flip_bit_at i j xs) = length xs"
  by (simp add: flip_bit_at_def)

lemma flip_bit_at_append:
  "flip_bit_at i j (xs @ ys) =
     (if i < length xs then flip_bit_at i j xs @ ys else xs @ flip_bit_at (i - length xs) j ys)"
  by (simp add: flip_bit_at_def list_update_append nth_append)

lemma xor_left_cancel_byte: "((a :: byte) XOR x = a XOR y) = (x = y)"
proof
  assume "a XOR x = a XOR y"
  then have "a XOR (a XOR x) = a XOR (a XOR y)" by simp
  then show "x = y" by (simp add: xor.assoc [symmetric])
qed simp

lemma xor_right_cancel_byte: "((x :: byte) XOR a = y XOR a) = (x = y)"
  using xor_left_cancel_byte [of a x y] by (simp add: xor.commute)

lemma toy_open_split:
  assumes "length t = TAG_LENGTH"
  shows "toy_open k iv (c @ t) =
           (if t = toy_tag k iv c then Some (map2 (XOR) c (toy_stream k iv (length c))) else None)"
proof -
  have l: "length (c @ t) - TAG_LENGTH = length c" and g: "TAG_LENGTH \<le> length (c @ t)"
    using assms by simp_all
  show ?thesis unfolding toy_open_def l using g by simp
qed

lemma toy_tag_eq: "(toy_tag k iv c = toy_tag k iv' c') =
    (xor_sum (key_bytes k @ iv @ c) = xor_sum (key_bytes k @ iv' @ c'))"
  by (simp add: toy_tag_def TAG_LENGTH_def replicate_eq_replicate)

lemma toy_tag_flip_iv:
  assumes "i < length iv" "j < 8"
  shows "toy_tag k iv c \<noteq> toy_tag k (flip_bit_at i j iv) c"
  using xor_sum_flip [OF assms]
  by (simp add: toy_tag_eq xor_sum_append xor_left_cancel_byte xor_right_cancel_byte)

lemma toy_tag_flip_c:
  assumes "i < length c" "j < 8"
  shows "toy_tag k iv c \<noteq> toy_tag k iv (flip_bit_at i j c)"
  using xor_sum_flip [OF assms]
  by (simp add: toy_tag_eq xor_sum_append xor_left_cancel_byte)

lemma toy_reject:
  assumes iv: "length iv = IV_LENGTH" and i: "i < length (iv @ toy_seal k iv data)" and j: "j < 8"
  shows "toy_open k (take IV_LENGTH (flip_bit_at i j (iv @ toy_seal k iv data)))
           (drop IV_LENGTH (flip_bit_at i j (iv @ toy_seal k iv data))) = None"
proof -
  define c where "c = map2 (XOR) data (toy_stream k iv (length data))"
  define t where "t = toy_tag k iv c"
  have seal: "toy_seal k iv data = c @ t" by (simp add: toy_seal_def c_def t_def)
  have lt: "length t = TAG_LENGTH" by (simp add: t_def length_toy_tag)
  consider (nonce) "i < length iv" | (body) "\<not> i < length iv" "i - length iv < length c"
    | (tag) "\<not> i < length iv" "\<not> i - length iv < length c"
    by blast
  then show ?thesis
  proof cases
    case nonce
    have f: "flip_bit_at i j (iv @ toy_seal k iv data) = flip_bit_at i j iv @ c @ t"
      using nonce by (simp add: flip_bit_at_append seal)
    have "t \<noteq> toy_tag k (flip_bit_at i j iv) c"
      unfolding t_def by (rule toy_tag_flip_iv [OF nonce j])
    then have "toy_open k (flip_bit_at i j iv) (c @ t) = None"
      by (simp add: toy_open_split [OF lt])
    then show ?thesis using iv by (simp add: f length_flip_bit_at)
  next
    case body
    have f: "flip_bit_at i j (iv @ toy_seal k iv data) = iv @ flip_bit_at (i - length iv) j c @ t"
      using body by (simp add: flip_bit_at_append seal)
    have "t \<noteq> toy_tag k iv (flip_bit_at (i - length iv) j c)"
      unfolding t_def by (rule toy_tag_flip_c [OF body(2) j])
    then have "toy_open k iv (flip_bit_at (i - length iv) j c @ t) = None"
      by (simp add: toy_open_split [OF lt])
    then show ?thesis using iv by (simp add: f)
  next
    case tag
    define n where "n = i - length iv - length c"
    have n: "n < length t" using tag i by (simp add: seal n_def)
    have f: "flip_bit_at i j (iv @ toy_seal k iv data) = iv @ c @ flip_bit_at n j t"
      using tag by (simp add: flip_bit_at_append seal n_def)
    have lf: "length (flip_bit_at n j t) = TAG_LENGTH" by (simp add: length_flip_bit_at lt)
    have "flip_bit_at n j t \<noteq> toy_tag k iv c"
      using flip_bit_at_neq [OF n j] by (simp add: t_def)
    then have "toy_open k iv (c @ flip_bit_at n j t) = None"
      by (simp add: toy_open_split [OF lf])
    then show ?thesis using iv by (simp add: f)
  qed
qed

lemma toy_rejects_bit_flips: "rejects_bit_flips toy_platform k"
  unfolding rejects_bit_flips_def
  by (simp add: toy_platform_def toy_reject del: length_append)

lemma subtle_decrypt_None:
  "aes_gcm_open P k iv d = None \<Longrightarrow> subtle_decrypt P k iv d = Inl OperationError"
  by (simp add: subtle_decrypt_def)

text \<open>
  Under a key for which the primitive rejects every single changed bit of nonce,
  ciphertext or tag, the encoding of the bytes of a blob with one bit flipped makes
  \<open>decryptString\<close> fail with \<open>DecryptionFailed\<close>.
\<close>

lemma byte_flip_detected:
  assumes "rejects_bit_flips P k" and "i < length (blob_bytes P p k rng)" and "j < 8"
  shows "fst (encryptString P p k rng) = Inr (b64_encode (blob_bytes P p k rng)) \<and>
         decryptString P (b64_encode (flip_bit_at i j (blob_bytes P p k rng))) k
           = Inl DecryptionFailed"
proof -
  let ?iv = "fst (getRandomValues IV_LENGTH rng)"
  have "aes_gcm_open P k
          (take IV_LENGTH (flip_bit_at i j (blob_bytes P p k rng)))
          (drop IV_LENGTH (flip_bit_at i j (blob_bytes P p k rng))) = None"
    using assms length_nonce [of rng]
    unfolding rejects_bit_flips_def blob_bytes_def by blast
  then show ?thesis
    by (simp add: decryptString_encoded subtle_decrypt_None encryptString_blob blob_bytes_def)
qed



lemma replicate_16: "replicate 16 x = [x,x,x,x,x,x,x,x,x,x,x,x,x,x,x,x]"
  by (simp add: numeral_eq_Suc)

lemma counting_12: "map counting [0..<12] = [1, 8, 15, 22, 29, 36, 43, 50, 57, 64, 71, 78]"
  by (simp add: counting_def upt_rec)

lemma empty_blob_bytes:
  "map counting [0..<12] @
   aes_gcm_seal toy_platform (AesGcmKey [1, 2, 3]) (map counting [0..<12]) (TextEncoder_encode [])
   = [1, 8, 15, 22, 29, 36, 43, 50, 57, 64, 71, 78,
      64, 64, 64, 64, 64, 64, 64, 64, 64, 64, 64, 64, 64, 64, 64, 64]"
  by (simp add: counting_12 toy_platform_def toy_seal_def toy_tag_def toy_stream_def
        TextEncoder_encode_def TAG_LENGTH_def replicate_16)

lemma empty_blob_text:
  "b64_encode [1, 8, 15, 22, 29, 36, 43, 50, 57, 64, 71, 78,
      64, 64, 64, 64, 64, 64, 64, 64, 64, 64, 64, 64, 64, 64, 64, 64]
   = ascii ''AQgPFh0kKzI5QEdOQEBAQEBAQEBAQEBAQEBAQA==''"
  by (simp add: b64_char_def b64_pad_def ascii_def)






section \<open>Texts that \<open>atob\<close> rejects\<close>

lemma b64_value_None: "(b64_value c = None) = (\<not> is_base64_char c)"
  by (simp add: b64_value_def is_base64_char_def Let_def)

lemma those_None: "(those (map f xs) = None) = list_ex (\<lambda>x. f x = None) xs"
  by (induction xs) (auto split: option.splits)

lemma those_length: "those (map f xs) = Some ys \<Longrightarrow> length ys = length xs"
  by (induction xs arbitrary: ys) (auto split: option.splits)

lemma length_b64_loop:
  "n = 0 \<or> n = 6 \<or> n = 12 \<or> n = 18 \<Longrightarrow>
     length (b64_loop vs buf n) = (n + 6 * length vs) div 8"
proof (induction vs buf n rule: b64_loop.induct)
  case (1 buf n)
  then show ?case by auto
next
  case (2 v vs buf n)
  show ?case
  proof (cases "n = 18")
    case True
    have "(24 + 6 * length vs) div 8 = 3 + (6 * length vs) div 8" by simp
    then show ?thesis using True 2(1) by simp
  next
    case False
    with 2(3) have n: "n = 0 \<or> n = 6 \<or> n = 12" by simp
    then have "n + 6 = 0 \<or> n + 6 = 6 \<or> n + 6 = 12 \<or> n + 6 = 18" by auto
    with 2(2) n have "length (b64_loop vs (buf * 64 + v) (n + 6)) = (n + 6 + 6 * length vs) div 8"
      by auto
    then show ?thesis using n by (auto simp: add.assoc)
  qed
qed

lemma length_b64_loop_0: "length (b64_loop vs 0 0) = 3 * length vs div 4"
proof -
  have "(6 * length vs) div 8 = (2 * (3 * length vs)) div (2 * 4)" by simp
  also have "\<dots> = 3 * length vs div 4" by (simp only: div_mult_mult1 [of 2])
  finally show ?thesis by (simp add: length_b64_loop)
qed

lemma forgiving_base64_decode_None:
  "(forgiving_base64_decode t = None) = rejected_text t"
proof -
  have "(those (map b64_value (base64_data t)) = None) =
          list_ex (\<lambda>c. \<not> is_base64_char c) (base64_data t)"
    by (simp add: those_None b64_value_None)
  then show ?thesis
    unfolding forgiving_base64_decode_def rejected_text_def base64_data_def [symmetric] Let_def
    by (auto split: option.splits)
qed

lemma forgiving_base64_decode_length:
  "forgiving_base64_decode t = Some bytes \<Longrightarrow> length bytes = 3 * length (base64_data t) div 4"
  by (auto simp: forgiving_base64_decode_def base64_data_def Let_def length_b64_loop_0
        split: option.splits if_splits dest: those_length)

text \<open>
  Claim C8, amended. \<open>base64ToArrayBuffer\<close> fails, with \<open>MalformedEncoding\<close> and no
  other error, exactly on the texts that, after white space and padding are removed,
  have a length of 1 modulo 4 or hold a character outside the alphabet. Every other
  text is decoded whole: \<open>n\<close> remaining characters give \<open>3n div 4\<close> bytes.
\<close>

theorem malformed_text_rejected:
  "(base64ToArrayBuffer t = Inl MalformedEncoding) = rejected_text t \<and>
   (case base64ToArrayBuffer t of
      Inl e \<Rightarrow> e = MalformedEncoding
    | Inr bytes \<Rightarrow> length bytes = 3 * length (base64_data t) div 4)"
proof (cases "forgiving_base64_decode t")
  case None
  then show ?thesis
    using forgiving_base64_decode_None [of t] by (simp add: base64ToArrayBuffer_decode)
next
  case (Some bytes)
  then show ?thesis
    using forgiving_base64_decode_None [of t] forgiving_base64_decode_length [OF Some]
    by (simp add: base64ToArrayBuffer_decode)
qed

lemma canonical_iff_encoder_output:
  "is_canonical_base64 t = (\<exists>b. arrayBufferToBase64 b = Inr t)"
proof
  assume "is_canonical_base64 t"
  then show "\<exists>b. arrayBufferToBase64 b = Inr t"
    by (auto simp: is_canonical_base64_def arrayBufferToBase64_total split: option.splits)
next
  assume "\<exists>b. arrayBufferToBase64 b = Inr t"
  then obtain b where "t = b64_encode b" by (auto simp: arrayBufferToBase64_total)
  then show "is_canonical_base64 t"
    by (simp add: is_canonical_base64_def forgiving_base64_decode_encode)
qed

lemmas canonical_eval = is_canonical_base64_def forgiving_base64_decode_def strip_padding_def
  b64_value_def is_ascii_whitespace_def ascii_def b64_pad_def b64_char_def Let_def

text \<open>
  Claim C8 as stated fails on texts that no byte array encodes to: \<open>atob\<close> accepts
  unused bits that are not zero (and drops them), missing padding, and white space.
\<close>

theorem lenient_decoding:
  "\<not> is_canonical_base64 (ascii ''QR=='') \<and>
   base64ToArrayBuffer (ascii ''QR=='') = Inr [0x41] \<and>
   \<not> is_canonical_base64 (ascii ''QQ'') \<and>
   base64ToArrayBuffer (ascii ''QQ'') = Inr [0x41] \<and>
   \<not> is_canonical_base64 (ascii ''Q Q=='') \<and>
   base64ToArrayBuffer (ascii ''Q Q=='') = Inr [0x41]"
  by (simp add: canonical_eval base64ToArrayBuffer_decode)

section \<open>Tampering with the text of a blob\<close>










lemma decryptString_rejected_bytes:
  "base64ToArrayBuffer t = Inr bytes \<Longrightarrow>
   aes_gcm_open P k (take IV_LENGTH bytes) (drop IV_LENGTH bytes) = None \<Longrightarrow>
   decryptString P t k = Inl OperationError"
  by (simp add: decryptString_def subtle_decrypt_None)




lemma empty_blob_encoding:
  "b64_encode (blob_bytes toy_platform [] (AesGcmKey [1, 2, 3]) counting) =
     ascii ''AQgPFh0kKzI5QEdOQEBAQEBAQEBAQEBAQEBAQA==''"
  by (simp only: blob_bytes_def first_nonce empty_blob_bytes empty_blob_text)

lemma empty_blob_bytes_value:
  "blob_bytes toy_platform [] (AesGcmKey [1, 2, 3]) counting =
     [1, 8, 15, 22, 29, 36, 43, 50, 57, 64, 71, 78,
      64, 64, 64, 64, 64, 64, 64, 64, 64, 64, 64, 64, 64, 64, 64, 64]"
  by (simp only: blob_bytes_def first_nonce empty_blob_bytes)

lemma flip_first_digit_bit_1:
  "flip_bit_at 0 1 (ascii ''AQgPFh0kKzI5QEdOQEBAQEBAQEBAQEBAQEBAQA=='')
     = ascii ''CQgPFh0kKzI5QEdOQEBAQEBAQEBAQEBAQEBAQA==''"
  by (simp add: flip_bit_at_def ascii_def flip_bit_eq_xor)

lemma decode_changed:
  "base64ToArrayBuffer (ascii ''CQgPFh0kKzI5QEdOQEBAQEBAQEBAQEBAQEBAQA=='') =
     Inr [9, 8, 15, 22, 29, 36, 43, 50, 57, 64, 71, 78,
          64, 64, 64, 64, 64, 64, 64, 64, 64, 64, 64, 64, 64, 64, 64, 64]"
  by (simp add: b64_eval)

lemma changed_nonce_rejected:
  "aes_gcm_open toy_platform (AesGcmKey [1, 2, 3])
     (take IV_LENGTH [9, 8, 15, 22, 29, 36, 43, 50, 57, 64, 71, 78,
          64, 64, 64, 64, 64, 64, 64, 64, 64, 64, 64, 64, 64, 64, 64, 64])
     (drop IV_LENGTH [9, 8, 15, 22, 29, 36, 43, 50, 57, 64, 71, 78,
          64, 64, 64, 64, 64, 64, 64, 64, 64, 64, 64, 64, 64, 64, 64, 64]) = None"
  by (simp add: IV_LENGTH_def toy_platform_def toy_open_def toy_tag_def TAG_LENGTH_def
        replicate_16)




lemma bit_1_flip_outcome:
  "decryptString toy_platform
     (flip_bit_at 0 1 (b64_encode (blob_bytes toy_platform [] (AesGcmKey [1, 2, 3]) counting)))
     (AesGcmKey [1, 2, 3]) = Inl DecryptionFailed"
  unfolding empty_blob_encoding flip_first_digit_bit_1
  by (rule decryptString_rejected_bytes [OF decode_changed changed_nonce_rejected])

text \<open>
  The hypothesis on the primitive is needed. In the blob of \<open>glgqhhjj\<close>, which has no
  padding, bit 6 of the character \<open>L\<close> at position 24 turns it into a form feed, which
  \<open>atob\<close> skips: every later digit moves by six bits, and the weak tag of the small
  instance accepts the shorter message.
\<close>

lemma shifted_text:
  "flip_bit_at 24 6 (ascii ''AQgPFh0kKzI5QEdOJy0lMiwtLC1dXV1dXV1dXV1dXV1dXV1d'') =
     [65, 81, 103, 80, 70, 104, 48, 107, 75, 122, 73, 53, 81, 69, 100, 79, 74,
      121, 48, 108, 77, 105, 119, 116, 12, 67, 49, 100, 88, 86, 49, 100, 88, 86,
      49, 100, 88, 86, 49, 100, 88, 86, 49, 100, 88, 86, 49, 100]"
  by (simp add: flip_bit_at_def ascii_def flip_bit_eq_xor)

lemma shifted_decoding:
  "base64ToArrayBuffer
     [65, 81, 103, 80, 70, 104, 48, 107, 75, 122, 73, 53, 81, 69, 100, 79, 74,
      121, 48, 108, 77, 105, 119, 116, 12, 67, 49, 100, 88, 86, 49, 100, 88, 86,
      49, 100, 88, 86, 49, 100, 88, 86, 49, 100, 88, 86, 49, 100] =
   Inr [1, 8, 15, 22, 29, 36, 43, 50, 57, 64, 71, 78, 39, 45, 37, 50, 44, 45,
      11, 87, 87, 87, 87, 87, 87, 87, 87, 87, 87, 87, 87, 87, 87, 87, 87]"
  by (simp add: b64_eval)

lemma shifted_opening:
  "subtle_decrypt toy_platform (AesGcmKey [1, 2, 3])
     (take IV_LENGTH [1, 8, 15, 22, 29, 36, 43, 50, 57, 64, 71, 78, 39, 45, 37, 50, 44, 45,
      11, 87, 87, 87, 87, 87, 87, 87, 87, 87, 87, 87, 87, 87, 87, 87, 87])
     (drop IV_LENGTH [1, 8, 15, 22, 29, 36, 43, 50, 57, 64, 71, 78, 39, 45, 37, 50, 44, 45,
      11, 87, 87, 87, 87, 87, 87, 87, 87, 87, 87, 87, 87, 87, 87, 87, 87]) =
   Inr [103, 108, 103, 113, 104, 104, 77]"
  by (simp add: subtle_decrypt_def IV_LENGTH_def toy_platform_def toy_open_def toy_tag_def
        toy_stream_def TAG_LENGTH_def replicate_16 upt_rec)

lemma decode_glgqhhM:
  "TextDecoder_decode [103, 108, 103, 113, 104, 104, 77] = ascii ''glgqhhM''"
  by (simp add: TextDecoder_decode_def utf8_run_1 utf8_initial_fields strip_bom_def ascii_def)

lemma sealed_glgqhhjj:
  "fst (encryptString toy_platform (ascii ''glgqhhjj'') (AesGcmKey [1, 2, 3]) counting) =
     Inr (ascii ''AQgPFh0kKzI5QEdOJy0lMiwtLC1dXV1dXV1dXV1dXV1dXV1d'')"
proof -
  have e: "TextEncoder_encode (ascii ''glgqhhjj'') = [103, 108, 103, 113, 104, 104, 106, 106]"
    by (simp add: TextEncoder_encode_def ascii_def utf8_encode_code_point_def
          is_lead_surrogate_def is_trail_surrogate_def)
  have s: "map counting [0..<12] @
        aes_gcm_seal toy_platform (AesGcmKey [1, 2, 3]) (map counting [0..<12])
          [103, 108, 103, 113, 104, 104, 106, 106] =
        [1, 8, 15, 22, 29, 36, 43, 50, 57, 64, 71, 78, 39, 45, 37, 50, 44, 45, 44,
         45, 93, 93, 93, 93, 93, 93, 93, 93, 93, 93, 93, 93, 93, 93, 93, 93]"
    by (simp only: counting_12)
       (simp add: toy_platform_def toy_seal_def toy_tag_def toy_stream_def
          TAG_LENGTH_def replicate_16 upt_rec)
  have t: "b64_encode [1, 8, 15, 22, 29, 36, 43, 50, 57, 64, 71, 78, 39, 45, 37, 50, 44, 45, 44,
         45, 93, 93, 93, 93, 93, 93, 93, 93, 93, 93, 93, 93, 93, 93, 93, 93] =
        ascii ''AQgPFh0kKzI5QEdOJy0lMiwtLC1dXV1dXV1dXV1dXV1dXV1d''"
    by (simp add: b64_char_def b64_pad_def ascii_def)
  show ?thesis by (simp only: encryptString_first e s t)
qed

lemma weak_tag_accepts_shifted_text:
  "fst (encryptString toy_platform (ascii ''glgqhhjj'') (AesGcmKey [1, 2, 3]) counting) =
     Inr (ascii ''AQgPFh0kKzI5QEdOJy0lMiwtLC1dXV1dXV1dXV1dXV1dXV1d'') \<and>
   decryptString toy_platform
     (flip_bit_at 24 6 (ascii ''AQgPFh0kKzI5QEdOJy0lMiwtLC1dXV1dXV1dXV1dXV1dXV1d''))
     (AesGcmKey [1, 2, 3]) = Inr (ascii ''glgqhhM'')"
  by (simp only: sealed_glgqhhjj shifted_text decryptString_def shifted_decoding sum.case
        shifted_opening decode_glgqhhM simp_thms)

end
